theory Spec2Isabelle
  imports Main "HOL-Library.Sublist" "HOL-Library.Finite_Map"
begin

section \<open>Text: the string operations of Python that the program calls\<close>

text \<open>
  The program is \<^verbatim>\<open>src/split_pdf.py\<close>. Its strings are modelled as HOL strings; a
  \<^typ>\<open>char\<close> stands for the code point of the same number, so the texts covered are those
  over U+0000 .. U+00FF. On this alphabet the functions below follow \<^verbatim>\<open>str.strip\<close>,
  \<^verbatim>\<open>str.lower\<close>, \<^verbatim>\<open>str.endswith\<close>, the operator \<^verbatim>\<open>in\<close> on strings, \<^verbatim>\<open>int\<close> and the
  decimal rendering of an integer in an f-string.
\<close>

type_synonym row = "string list"

text \<open>
  \<^verbatim>\<open>str.isspace\<close> of one code point: TAB, LF, VT, FF, CR, the separators U+001C .. U+001F,
  SPACE, NEL (U+0085) and NO-BREAK SPACE (U+00A0).
\<close>

definition isspace :: "char \<Rightarrow> bool" where
  "isspace c \<longleftrightarrow>
     (let n = (of_char c :: nat)
      in (9 \<le> n \<and> n \<le> 13) \<or> (28 \<le> n \<and> n \<le> 32) \<or> n = 133 \<or> n = 160)"

definition strip :: "string \<Rightarrow> string" where
  "strip s = rev (dropWhile isspace (rev (dropWhile isspace s)))"

text \<open>
  \<^verbatim>\<open>str.lower\<close>: the capital letters are U+0041 .. U+005A and U+00C0 .. U+00DE without
  the multiplication sign U+00D7; in each of them bit 5 (value 32) is clear, and the small
  letter is the code point 32 higher, that is, the same bits with bit 5 set.
\<close>

fun lower_char :: "char \<Rightarrow> char" where
  "lower_char (Char b0 b1 b2 b3 b4 b5 b6 b7) =
     (let n = (of_char (Char b0 b1 b2 b3 b4 b5 b6 b7) :: nat)
      in if (65 \<le> n \<and> n \<le> 90) \<or> (192 \<le> n \<and> n \<le> 222 \<and> n \<noteq> 215)
         then Char b0 b1 b2 b3 b4 True b6 b7
         else Char b0 b1 b2 b3 b4 b5 b6 b7)"

definition lower :: "string \<Rightarrow> string" where
  "lower s = map lower_char s"

text \<open>\<^verbatim>\<open>s.endswith(suffix)\<close> and \<^verbatim>\<open>pat in s\<close>.\<close>

definition endswith :: "string \<Rightarrow> string \<Rightarrow> bool" where
  "endswith s suf \<longleftrightarrow> length suf \<le> length s \<and> drop (length s - length suf) s = suf"

fun startswith :: "string \<Rightarrow> string \<Rightarrow> bool" where
  "startswith s [] = True"
| "startswith [] (p # ps) = False"
| "startswith (c # cs) (p # ps) = (c = p \<and> startswith cs ps)"

fun contains :: "string \<Rightarrow> string \<Rightarrow> bool" where
  "contains [] pat = (pat = [])"
| "contains (c # cs) pat = (startswith (c # cs) pat \<or> contains cs pat)"

text \<open>
  \<^verbatim>\<open>int(s)\<close>, base 10: surrounding white space is dropped, one sign is allowed, then come
  decimal digits, where a single underscore may stand between two digits. \<^const>\<open>None\<close> is
  the \<^verbatim>\<open>ValueError\<close>. The white space that \<^verbatim>\<open>int\<close> itself drops does not include U+001C ..
  U+001F. (The limit that recent interpreters put on the number of digits, 4300 by
  default, is not modelled.)
\<close>

definition is_digit :: "char \<Rightarrow> bool" where
  "is_digit c \<longleftrightarrow> (48 \<le> (of_char c :: nat) \<and> (of_char c :: nat) \<le> 57)"

definition digit_val :: "char \<Rightarrow> int" where
  "digit_val c = int (of_char c) - 48"

definition int_space :: "char \<Rightarrow> bool" where
  "int_space c \<longleftrightarrow>
     (let n = (of_char c :: nat) in (9 \<le> n \<and> n \<le> 13) \<or> n = 32 \<or> n = 133 \<or> n = 160)"

fun more_digits :: "int \<Rightarrow> string \<Rightarrow> int option" where
  "more_digits acc [] = Some acc"
| "more_digits acc [c] = (if is_digit c then Some (10 * acc + digit_val c) else None)"
| "more_digits acc (c # d # ds) =
     (if is_digit c then more_digits (10 * acc + digit_val c) (d # ds)
      else if c = CHR ''_'' \<and> is_digit d then more_digits (10 * acc + digit_val d) ds
      else None)"

definition unsigned_int :: "string \<Rightarrow> int option" where
  "unsigned_int s =
     (case s of
        [] \<Rightarrow> None
      | c # cs \<Rightarrow> if is_digit c then more_digits (digit_val c) cs else None)"

definition py_int :: "string \<Rightarrow> int option" where
  "py_int s =
     (case rev (dropWhile int_space (rev (dropWhile int_space s))) of
        [] \<Rightarrow> None
      | c # cs \<Rightarrow>
          if c = CHR ''-'' then map_option uminus (unsigned_int cs)
          else if c = CHR ''+'' then unsigned_int cs
          else unsigned_int (c # cs))"

text \<open>The decimal digits of a natural number, as \<^verbatim>\<open>f"{counter}"\<close> prints them.\<close>

fun show_nat :: "nat \<Rightarrow> string" where
  "show_nat n =
     (if n < 10 then [''0123456789'' ! n]
      else show_nat (n div 10) @ [''0123456789'' ! (n mod 10)])"

declare show_nat.simps [simp del]

section \<open>The range table: \<^verbatim>\<open>read_ranges_csv\<close>\<close>

datatype encoding = Utf8Sig | Utf8 | Cp1252

text \<open>
  The exceptions of a run. The first three are the \<^verbatim>\<open>ValueError\<close>s that
  \<^verbatim>\<open>read_ranges_csv\<close> raises (row number, and the row or the offending cells), the next
  three those that \<^verbatim>\<open>main\<close> raises (record number and the page numbers of the message).
  \<^verbatim>\<open>UnicodeDecodeError\<close> is raised by the decoder while the file is read; \<open>ReaderError\<close>
  stands for any other exception of \<^verbatim>\<open>open\<close> or of the CSV reader. \<^verbatim>\<open>IndexError\<close> is that
  of \<^verbatim>\<open>reader.pages[p]\<close>. The last five are raised when an output path is looked up or
  opened: \<^verbatim>\<open>FileNotFoundError\<close>, \<^verbatim>\<open>NotADirectoryError\<close> and \<^verbatim>\<open>IsADirectoryError\<close>, the
  \<^verbatim>\<open>ValueError\<close> for a path with a NUL character, and \<open>OSError\<close> for any other refusal of
  the operating system.
\<close>

datatype error =
    ColumnCount nat nat row
  | NotIntegers nat string string
  | BlankFilename nat
  | PagesBelowOne nat int int
  | EndBeforeStart nat int int
  | EndExceedsTotal nat int int
  | UnicodeDecodeError string
  | ReaderError string
  | RuntimeError
  | IndexError
  | FileNotFoundError
  | NotADirectoryError
  | IsADirectoryError
  | EmbeddedNullByte
  | OSError string

fun is_decode_error :: "error \<Rightarrow> bool" where
  "is_decode_error (UnicodeDecodeError m) = True"
| "is_decode_error e = False"

text \<open>
  Opening the file with an encoding and iterating \<^verbatim>\<open>csv.reader\<close> over it is the work of
  the standard library. What the program sees of it is a sequence of rows, each a list of
  cells, that ends either with the end of the file or with an exception raised by the
  iteration (the file is decoded while it is read, so rows can come before a decoding
  failure). A range-table file is given by what it reads as under each encoding.
\<close>

record reading =
  yielded :: "row list"
  raised :: "error option"

type_synonym csv_file = "encoding \<Rightarrow> reading"

type_synonym range = "int \<times> int \<times> string"

text \<open>Line 47: \<^verbatim>\<open>not row or all(not (c or "").strip() for c in row)\<close>.\<close>

definition blank_row :: "row \<Rightarrow> bool" where
  "blank_row r \<longleftrightarrow> r = [] \<or> list_all (\<lambda>c. strip c = []) r"

text \<open>Lines 62 to 68, on the three stripped cells.\<close>

definition header_like :: "string \<Rightarrow> string \<Rightarrow> string \<Rightarrow> bool" where
  "header_like c0 c1 c2 \<longleftrightarrow>
     contains (lower c0) ''start''
     \<or> contains (lower c1) ''stop''
     \<or> contains (lower c2) ''filename''
     \<or> {''start'', ''stop'', ''filename''} \<subseteq> {lower c0, lower c1, lower c2}"

text \<open>
  The loop of lines 45 to 82 over the rows that the reader yields; \<open>r_idx\<close> is the counter
  of \<^verbatim>\<open>enumerate\<close>, \<open>rows\<close> the list built so far.
\<close>

fun read_rows :: "nat \<Rightarrow> row list \<Rightarrow> range list \<Rightarrow> error + range list" where
  "read_rows r_idx [] rows = Inr rows"
| "read_rows r_idx (r # rest) rows =
     (if blank_row r then read_rows (Suc r_idx) rest rows
      else if length r < 3 then Inl (ColumnCount r_idx (length r) r)
      else
        let c0 = strip (r ! 0); c1 = strip (r ! 1); c2 = strip (r ! 2)
        in if r_idx = 1 \<and> header_like c0 c1 c2 then read_rows (Suc r_idx) rest rows
           else
             (case py_int c0 of
                None \<Rightarrow> Inl (NotIntegers r_idx c0 c1)
              | Some start_page \<Rightarrow>
                  (case py_int c1 of
                     None \<Rightarrow> Inl (NotIntegers r_idx c0 c1)
                   | Some end_page \<Rightarrow>
                       if c2 = [] then Inl (BlankFilename r_idx)
                       else read_rows (Suc r_idx) rest (rows @ [(start_page, end_page, c2)]))))"

text \<open>
  The body of the \<^verbatim>\<open>with\<close> block for one encoding: the loop, then \<^verbatim>\<open>return rows\<close>
  when the reader is exhausted, or the exception with which the iteration ended.
\<close>

definition read_with :: "reading \<Rightarrow> error + range list" where
  "read_with rd =
     (case read_rows 1 (yielded rd) [] of
        Inl e \<Rightarrow> Inl e
      | Inr rows \<Rightarrow> (case raised rd of None \<Rightarrow> Inr rows | Some e \<Rightarrow> Inl e))"

definition encodings_to_try :: "encoding list" where
  "encodings_to_try = [Utf8Sig, Utf8, Cp1252]"

text \<open>
  The loop of lines 39 to 90. Only a \<^verbatim>\<open>UnicodeDecodeError\<close> is caught; it is kept in
  \<open>last_err\<close> and the next encoding is tried. The list \<open>opened\<close> records, in order, the
  encodings with which the file has been opened.
\<close>

fun try_encodings ::
  "csv_file \<Rightarrow> encoding list \<Rightarrow> error option \<Rightarrow> encoding list \<Rightarrow> encoding list \<times> (error + range list)"
where
  "try_encodings f [] last_err opened =
     (opened, case last_err of Some e \<Rightarrow> Inl e | None \<Rightarrow> Inl RuntimeError)"
| "try_encodings f (enc # encs) last_err opened =
     (case read_with (f enc) of
        Inr rows \<Rightarrow> (opened @ [enc], Inr rows)
      | Inl e \<Rightarrow>
          if is_decode_error e then try_encodings f encs (Some e) (opened @ [enc])
          else (opened @ [enc], Inl e))"

definition read_ranges_csv :: "csv_file \<Rightarrow> encoding list \<times> (error + range list)" where
  "read_ranges_csv f = try_encodings f encodings_to_try None []"

section \<open>Splitting: the loop of \<^verbatim>\<open>main\<close>\<close>

text \<open>Lines 141 to 148, for record number \<open>i\<close>; \<^const>\<open>None\<close> when no check raises.\<close>

definition sanity_checks :: "nat \<Rightarrow> int \<Rightarrow> int \<Rightarrow> int \<Rightarrow> error option" where
  "sanity_checks i total_pages start_page end_page =
     (if start_page < 1 \<or> end_page < 1 then Some (PagesBelowOne i start_page end_page)
      else if end_page < start_page then Some (EndBeforeStart i start_page end_page)
      else if end_page > total_pages then Some (EndExceedsTotal i end_page total_pages)
      else None)"

text \<open>Lines 151 to 153.\<close>

definition ensure_pdf_suffix :: "string \<Rightarrow> string" where
  "ensure_pdf_suffix output_file =
     (let stripped = strip output_file
      in if \<not> endswith (lower stripped) ''.pdf'' then stripped @ ''.pdf'' else stripped)"

text \<open>
  The source document is the list of its pages. \<^verbatim>\<open>reader.pages[p]\<close> is the indexing of a
  Python sequence: a negative index counts from the end, an index out of range raises.
\<close>

definition getitem :: "'p list \<Rightarrow> int \<Rightarrow> error + 'p" where
  "getitem xs p =
     (let n = int (length xs); j = (if p < 0 then n + p else p)
      in if 0 \<le> j \<and> j < n then Inr (xs ! nat j) else Inl IndexError)"

text \<open>
  Lines 158 and 159: \<^verbatim>\<open>writer.add_page(reader.pages[p])\<close> for each \<open>p\<close> of the range;
  \<open>writer\<close> is the list of pages added so far.
\<close>

fun add_pages :: "'p list \<Rightarrow> int list \<Rightarrow> 'p list \<Rightarrow> error + 'p list" where
  "add_pages pages [] writer = Inr writer"
| "add_pages pages (p # ps) writer =
     (case getitem pages p of
        Inl e \<Rightarrow> Inl e
      | Inr page \<Rightarrow> add_pages pages ps (writer @ [page]))"

text \<open>
  \<^verbatim>\<open>Path(output_file).stem\<close>, as \<^verbatim>\<open>pathlib\<close> computes it on a POSIX system: the final
  component of the path, cut at its last dot unless that dot is its first or its last
  character. The program takes the stem of names that end in the extension only, and of
  such a name the final component is what follows the last separator.
\<close>

definition path_name :: "string \<Rightarrow> string" where
  "path_name s = rev (takeWhile (\<lambda>c. c \<noteq> CHR ''/'') (rev s))"

definition rfind :: "string \<Rightarrow> char \<Rightarrow> int" where
  "rfind s c =
     (if c \<in> set s then int (length s) - 1 - int (length (takeWhile (\<lambda>x. x \<noteq> c) (rev s)))
      else - 1)"

definition stem :: "string \<Rightarrow> string" where
  "stem s =
     (let name = path_name s; i = rfind name CHR ''.''
      in if 0 < i \<and> i < int (length name) - 1 then take (nat i) name else name)"

text \<open>
  The file system, as far as the run touches it, is a tree of folders and documents on a
  POSIX system: names are compared letter by letter, and there are no symbolic links. A
  location is the list of the names that lead to it from the root; the root, the empty
  list, is a folder. A document is the list of its pages.
\<close>

type_synonym location = "string list"

datatype 'p node = Folder | Document "'p list"

type_synonym 'p tree = "(location, 'p node) fmap"

definition node_at :: "'p tree \<Rightarrow> location \<Rightarrow> 'p node option" where
  "node_at t p = (if p = [] then Some Folder else fmlookup t p)"

text \<open>
  \<^verbatim>\<open>out_dir / name\<close>, as \<^verbatim>\<open>pathlib\<close> joins and the operating system resolves it. The
  name is cut at the separators; \<^verbatim>\<open>pathlib\<close> drops the empty parts and the parts \<^verbatim>\<open>.\<close>
  and keeps the parts \<^verbatim>\<open>..\<close>. A name that starts with a separator is absolute and
  replaces \<^verbatim>\<open>out_dir\<close>.
\<close>

fun split_on :: "char \<Rightarrow> string \<Rightarrow> string list" where
  "split_on sep [] = [[]]"
| "split_on sep (c # cs) =
     (if c = sep then [] # split_on sep cs
      else (c # hd (split_on sep cs)) # tl (split_on sep cs))"

definition parts :: "string \<Rightarrow> string list" where
  "parts name = filter (\<lambda>x. x \<noteq> [] \<and> x \<noteq> ''.'') (split_on CHR ''/'' name)"

text \<open>
  The operating system follows the parts from a location. Each location from which a part
  is followed must be a folder: the call fails with \<^verbatim>\<open>NotADirectoryError\<close> when it is a
  document and with \<^verbatim>\<open>FileNotFoundError\<close> when nothing is there. The part \<^verbatim>\<open>..\<close> leads
  to the parent folder, and the root is its own parent. Nothing is asked of the location
  that the last part reaches.
\<close>

fun walk :: "'p tree \<Rightarrow> location \<Rightarrow> string list \<Rightarrow> error + location" where
  "walk t cur [] = Inr cur"
| "walk t cur (c # cs) =
     (case node_at t cur of
        None \<Rightarrow> Inl FileNotFoundError
      | Some (Document d) \<Rightarrow> Inl NotADirectoryError
      | Some Folder \<Rightarrow> walk t (if c = ''..'' then butlast cur else cur @ [c]) cs)"

text \<open>
  The state that the loop of \<^verbatim>\<open>main\<close> reads and changes: the location of the output
  folder \<^verbatim>\<open>out_dir\<close>, the tree, and the \<^verbatim>\<open>[OK]\<close> lines printed so far, each with the name
  that was joined to \<^verbatim>\<open>out_dir\<close> and the page range. \<open>stat_error\<close> and \<open>open_error\<close> stand
  for what the operating system refuses for a reason that the tree does not show (a name
  that is too long, a missing permission, a full disk): the exception that \<^verbatim>\<open>exists()\<close>,
  respectively \<^verbatim>\<open>open("wb")\<close>, raises for \<^verbatim>\<open>out_dir / name\<close>, if any.
\<close>

record 'p world =
  out_dir :: location
  nodes :: "'p tree"
  stat_error :: "string \<Rightarrow> error option"
  open_error :: "string \<Rightarrow> error option"
  ok_lines :: "(string \<times> int \<times> int) list"

definition place :: "'p world \<Rightarrow> string \<Rightarrow> error + location" where
  "place w name =
     walk (nodes w) (if startswith name ''/'' then [] else out_dir w) (parts name)"

text \<open>
  Line 166, \<^verbatim>\<open>out_path.exists()\<close>. \<^verbatim>\<open>pathlib\<close> answers \<^verbatim>\<open>False\<close> for a name with a NUL
  character and when the operating system reports that the path, or a folder on the way,
  is not there; it lets every other exception of the operating system pass.
\<close>

definition path_exists :: "'p world \<Rightarrow> string \<Rightarrow> error + bool" where
  "path_exists w name =
     (if CHR 0x00 \<in> set name then Inr False
      else case stat_error w name of
             Some e \<Rightarrow> Inl e
           | None \<Rightarrow>
               (case place w name of
                  Inl e \<Rightarrow> Inr False
                | Inr p \<Rightarrow> Inr (node_at (nodes w) p \<noteq> None)))"

text \<open>
  Line 170, \<^verbatim>\<open>out_path.open("wb")\<close>: the location of the file that is created or
  emptied. A name with a NUL character is a \<^verbatim>\<open>ValueError\<close>, and a folder cannot be
  opened for writing.
\<close>

definition open_wb :: "'p world \<Rightarrow> string \<Rightarrow> error + location" where
  "open_wb w name =
     (if CHR 0x00 \<in> set name then Inl EmbeddedNullByte
      else case open_error w name of
             Some e \<Rightarrow> Inl e
           | None \<Rightarrow>
               (case place w name of
                  Inl e \<Rightarrow> Inl e
                | Inr p \<Rightarrow>
                    (case node_at (nodes w) p of
                       Some Folder \<Rightarrow> Inl IsADirectoryError
                     | Some (Document d) \<Rightarrow> Inr p
                     | None \<Rightarrow> Inr p)))"

text \<open>Line 167: \<^verbatim>\<open>f"{original_stem}_{counter}.pdf"\<close>.\<close>

definition suffixed :: "string \<Rightarrow> nat \<Rightarrow> string" where
  "suffixed original_stem counter = original_stem @ ''_'' @ show_nat counter @ ''.pdf''"

text \<open>
  The loop of lines 164 to 168 runs until \<^verbatim>\<open>exists()\<close> raises or answers \<^verbatim>\<open>False\<close>. It
  ends because the tree holds finitely many documents and folders and the names it tries
  lead to locations that are all different; the lemmas before the definition are what its
  termination proof needs.
\<close>

fun digits_value :: "nat \<Rightarrow> string \<Rightarrow> nat" where
  "digits_value acc [] = acc"
| "digits_value acc (c # cs) = digits_value (10 * acc + (of_char c - 48)) cs"

lemma digits_value_append:
  "digits_value acc (xs @ ys) = digits_value (digits_value acc xs) ys"
  by (induction xs arbitrary: acc) auto

lemma digit_char_value: "n < 10 \<Longrightarrow> (of_char (''0123456789'' ! n) :: nat) - 48 = n"
proof -
  assume "n < 10"
  then have "n \<in> {0, 1, 2, 3, 4, 5, 6, 7, 8, 9}" by auto
  then show ?thesis by auto
qed

lemma digits_value_show_nat: "digits_value 0 (show_nat n) = n"
proof (induction n rule: show_nat.induct)
  case (1 n)
  show ?case
  proof (cases "n < 10")
    case True
    then show ?thesis by (subst show_nat.simps) (simp add: digit_char_value)
  next
    case False
    have "n mod 10 < 10" by simp
    then have d: "(of_char (''0123456789'' ! (n mod 10)) :: nat) - 48 = n mod 10"
      by (rule digit_char_value)
    from False 1 have "digits_value 0 (show_nat (n div 10)) = n div 10" by simp
    with False d show ?thesis
      by (subst show_nat.simps) (simp add: digits_value_append del: nth_Cons_numeral)
  qed
qed

lemma show_nat_inj: "show_nat m = show_nat n \<Longrightarrow> m = n"
  by (metis digits_value_show_nat)

lemma suffixed_inj: "suffixed st m = suffixed st n \<Longrightarrow> m = n"
  by (simp add: suffixed_def show_nat_inj)

lemma digit_char_no_separator: "n < 10 \<Longrightarrow> ''0123456789'' ! n \<noteq> CHR ''/''"
proof -
  assume "n < 10"
  then have "n \<in> {0, 1, 2, 3, 4, 5, 6, 7, 8, 9}" by auto
  then show ?thesis by auto
qed

lemma show_nat_no_separator: "CHR ''/'' \<notin> set (show_nat n)"
proof (induction n rule: show_nat.induct)
  case (1 n)
  show ?case
  proof (cases "n < 10")
    case True
    then show ?thesis
      by (subst show_nat.simps) (simp add: digit_char_no_separator [THEN not_sym])
  next
    case False
    have "n mod 10 < 10" by simp
    then have "CHR ''/'' \<noteq> ''0123456789'' ! (n mod 10)"
      by (rule digit_char_no_separator [THEN not_sym])
    with False 1 show ?thesis
      by (subst show_nat.simps) (simp del: nth_Cons_numeral)
  qed
qed

lemma split_on_not_Nil: "split_on sep s \<noteq> []"
  by (induction s) simp_all

lemma split_on_no_separator: "sep \<notin> set s \<Longrightarrow> split_on sep s = [s]"
  by (induction s) auto


lemma split_on_append:
  "sep \<notin> set ys \<Longrightarrow>
     split_on sep (xs @ ys) = butlast (split_on sep xs) @ [last (split_on sep xs) @ ys]"
proof (induction xs)
  case Nil
  then show ?case by (simp add: split_on_no_separator)
next
  case (Cons c cs)
  obtain y rest where y: "split_on sep cs = y # rest"
    using split_on_not_Nil [of sep cs] by (cases "split_on sep cs") auto
  with Cons show ?case by (cases rest) (simp_all add: split_on_not_Nil)
qed

definition final_part :: "string \<Rightarrow> nat \<Rightarrow> string" where
  "final_part st n = last (split_on CHR ''/'' st) @ ''_'' @ show_nat n @ ''.pdf''"

lemma final_part_inj: "final_part st m = final_part st n \<Longrightarrow> m = n"
  by (simp add: final_part_def show_nat_inj)

lemma parts_suffixed:
  "parts (suffixed st n) \<noteq> [] \<and> last (parts (suffixed st n)) = final_part st n"
proof -
  have free: "CHR ''/'' \<notin> set (''_'' @ show_nat n @ ''.pdf'')"
    by (simp add: show_nat_no_separator)
  have "split_on CHR ''/'' (suffixed st n)
      = butlast (split_on CHR ''/'' st) @ [final_part st n]"
    unfolding suffixed_def final_part_def using free by (rule split_on_append)
  moreover have "final_part st n \<noteq> []" "final_part st n \<noteq> ''.''"
    by (auto simp: final_part_def append_eq_Cons_conv)
  ultimately show ?thesis by (simp add: parts_def)
qed

lemma final_part_not_parent: "final_part st n \<noteq> ''..''"
proof
  assume "final_part st n = ''..''"
  then have "length (final_part st n) = 2" by simp
  then show False by (simp add: final_part_def)
qed

lemma walk_last:
  "walk t cur cs = Inr p \<Longrightarrow> cs \<noteq> [] \<Longrightarrow> last cs \<noteq> ''..'' \<Longrightarrow> p \<noteq> [] \<and> last p = last cs"
proof (induction cs arbitrary: cur)
  case Nil
  then show ?case by simp
next
  case (Cons c cs)
  show ?case
  proof (cases cs)
    case Nil
    with Cons.prems show ?thesis
      by (auto split: option.splits node.splits)
  next
    case (Cons c' cs')
    with Cons.prems Cons.IH show ?thesis
      by (auto split: option.splits node.splits if_splits)
  qed
qed

lemma place_suffixed:
  assumes "place w (suffixed st n) = Inr p"
  shows "p \<noteq> [] \<and> last p = final_part st n"
  using assms walk_last [of "nodes w" _ "parts (suffixed st n)" p] parts_suffixed [of st n]
    final_part_not_parent [of st n]
  by (simp add: place_def)

lemma path_exists_True:
  "path_exists w name = Inr True \<longleftrightarrow>
     CHR 0x00 \<notin> set name \<and> stat_error w name = None
     \<and> (\<exists>p. place w name = Inr p \<and> node_at (nodes w) p \<noteq> None)"
  by (auto simp: path_exists_def split: option.splits sum.splits)

definition taken_from :: "'p world \<Rightarrow> string \<Rightarrow> nat \<Rightarrow> nat set" where
  "taken_from w st c = {n. c \<le> n \<and> path_exists w (suffixed st n) = Inr True}"

lemma finite_taken_from: "finite (taken_from w st c)"
proof -
  have "inj (final_part st)"
    by (auto simp: inj_on_def dest: final_part_inj)
  then have "finite (final_part st -` (last ` fmdom' (nodes w)))"
    by (simp add: finite_vimageI)
  moreover have "taken_from w st c \<subseteq> final_part st -` (last ` fmdom' (nodes w))"
  proof
    fix n assume "n \<in> taken_from w st c"
    then obtain p where p: "place w (suffixed st n) = Inr p" "node_at (nodes w) p \<noteq> None"
      by (auto simp: taken_from_def path_exists_True)
    from p(1) have l: "p \<noteq> []" "last p = final_part st n"
      using place_suffixed by blast+
    with p(2) have "p \<in> fmdom' (nodes w)"
      by (auto simp: node_at_def fmlookup_dom'_iff)
    with l(2) show "n \<in> final_part st -` (last ` fmdom' (nodes w))"
      by (auto simp: image_iff intro!: bexI [of _ p])
  qed
  ultimately show ?thesis
    by (rule rev_finite_subset)
qed

lemma taken_from_Suc:
  "taken_from w st c =
     (if path_exists w (suffixed st c) = Inr True then insert c (taken_from w st (Suc c))
      else taken_from w st (Suc c))"
  by (auto simp: taken_from_def Suc_le_eq le_less)

function avoid_overwriting :: "'p world \<Rightarrow> string \<Rightarrow> string \<Rightarrow> nat \<Rightarrow> error + string" where
  "avoid_overwriting w original_stem out_path counter =
     (case path_exists w out_path of
        Inl e \<Rightarrow> Inl e
      | Inr found \<Rightarrow>
          if found
          then avoid_overwriting w original_stem (suffixed original_stem counter) (counter + 1)
          else Inr out_path)"
  by pat_completeness auto
termination
proof (relation "measure (\<lambda>(w, st, p, c).
          card (taken_from w st c) + (if path_exists w p = Inr True then 1 else 0))")
  show "wf (measure (\<lambda>(w :: 'p world, st, p, c).
          card (taken_from w st c) + (if path_exists w p = Inr True then 1 else 0)))"
    by simp
next
  fix w :: "'p world" and original_stem out_path :: string and counter :: nat and found :: bool
  assume ex: "path_exists w out_path = Inr found" "found"
  have "counter \<notin> taken_from w original_stem (Suc counter)"
    by (auto simp: taken_from_def)
  then have "card (taken_from w original_stem (counter + 1))
        + (if path_exists w (suffixed original_stem counter) = Inr True then 1 else 0)
      = card (taken_from w original_stem counter)"
    by (subst (2) taken_from_Suc) (simp add: finite_taken_from)
  with ex show "((w, original_stem, suffixed original_stem counter, counter + 1),
        w, original_stem, out_path, counter)
      \<in> measure (\<lambda>(w, st, p, c).
          card (taken_from w st c) + (if path_exists w p = Inr True then 1 else 0))"
    by simp
qed

declare avoid_overwriting.simps [simp del]

text \<open>
  Lines 140 to 173, the body of the loop for record number \<open>i\<close>: the exception that it
  raises, or the state after it. \<^verbatim>\<open>writer.write(out_f)\<close> is the work of the library: the
  file that was opened then is a document with the pages added to the writer.
\<close>

definition split_range :: "'p list \<Rightarrow> nat \<Rightarrow> range \<Rightarrow> 'p world \<Rightarrow> error + 'p world" where
  "split_range pages i r w =
     (case r of (start_page, end_page, output_file) \<Rightarrow>
        (case sanity_checks i (int (length pages)) start_page end_page of
           Some e \<Rightarrow> Inl e
         | None \<Rightarrow>
             let output_file = ensure_pdf_suffix output_file
             in (case add_pages pages [start_page - 1 .. end_page - 1] [] of
                   Inl e \<Rightarrow> Inl e
                 | Inr writer \<Rightarrow>
                     (case avoid_overwriting w (stem output_file) output_file 1 of
                        Inl e \<Rightarrow> Inl e
                      | Inr out_path \<Rightarrow>
                          (case open_wb w out_path of
                             Inl e \<Rightarrow> Inl e
                           | Inr p \<Rightarrow>
                               Inr (w\<lparr>nodes := fmupd p (Document writer) (nodes w),
                                      ok_lines := ok_lines w
                                        @ [(out_path, start_page, end_page)]\<rparr>))))))"

text \<open>
  The loop of lines 139 to 173 over the records from number \<open>i\<close> on. The result is the
  exception that ended the loop, if any, and the state at that moment.
\<close>

fun split_ranges ::
  "'p list \<Rightarrow> nat \<Rightarrow> range list \<Rightarrow> 'p world \<Rightarrow> error option \<times> 'p world"
where
  "split_ranges pages i [] w = (None, w)"
| "split_ranges pages i (r # rest) w =
     (case split_range pages i r w of
        Inl e \<Rightarrow> (Some e, w)
      | Inr w' \<Rightarrow> split_ranges pages (Suc i) rest w')"

text \<open>
  \<^verbatim>\<open>main\<close> from line 134 on, given the pages of the source document, the range-table
  file and the state in which line 130 leaves the file system: the table is read, then
  the records are processed.
\<close>

definition main :: "'p list \<Rightarrow> csv_file \<Rightarrow> 'p world \<Rightarrow> error option \<times> 'p world" where
  "main pages ranges_csv w =
     (case snd (read_ranges_csv ranges_csv) of
        Inl e \<Rightarrow> (Some e, w)
      | Inr ranges \<Rightarrow> split_ranges pages 1 ranges w)"

section \<open>What the claims speak of\<close>

text \<open>
  A record is in bounds for a document when \<open>1 \<le> start_page \<le> end_page \<le> total_pages\<close>.
  The pages \<open>start_page\<close> to \<open>end_page\<close> of a document, counted from 1 and both ends
  included, are \<open>page_span\<close>.
\<close>

definition in_bounds :: "int \<Rightarrow> int \<Rightarrow> int \<Rightarrow> bool" where
  "in_bounds total_pages start_page end_page \<longleftrightarrow>
     1 \<le> start_page \<and> start_page \<le> end_page \<and> end_page \<le> total_pages"

definition page_span :: "'p list \<Rightarrow> int \<Rightarrow> int \<Rightarrow> 'p list" where
  "page_span pages start_page end_page = map (\<lambda>k. pages ! nat (k - 1)) [start_page .. end_page]"

text \<open>
  Reading under one encoding ends in a decoding failure when its exception is a
  \<^verbatim>\<open>UnicodeDecodeError\<close>; this is the only case in which the next encoding is tried. The
  malformed-row errors are the three \<^verbatim>\<open>ValueError\<close>s of \<^verbatim>\<open>read_ranges_csv\<close>. The header
  row is the row that line 61 tests, row number 1, when it has three cells that meet a
  criterion; the data rows of a table are its rows, with their numbers, that are neither
  blank nor the header row.
\<close>

definition decode_failed :: "reading \<Rightarrow> bool" where
  "decode_failed rd \<longleftrightarrow> (case read_with rd of Inl e \<Rightarrow> is_decode_error e | Inr rows \<Rightarrow> False)"

fun malformed_row_error :: "error \<Rightarrow> bool" where
  "malformed_row_error (ColumnCount i n r) = True"
| "malformed_row_error (NotIntegers i c0 c1) = True"
| "malformed_row_error (BlankFilename i) = True"
| "malformed_row_error e = False"

definition header_row :: "row \<Rightarrow> bool" where
  "header_row r \<longleftrightarrow>
     3 \<le> length r \<and> header_like (strip (r ! 0)) (strip (r ! 1)) (strip (r ! 2))"

definition data_rows :: "nat \<Rightarrow> row list \<Rightarrow> (nat \<times> row) list" where
  "data_rows i rows =
     filter (\<lambda>(r_idx, r). \<not> blank_row r \<and> \<not> (r_idx = 1 \<and> header_row r)) (enumerate i rows)"

text \<open>
  The header row in the words of the specification: the first row that is not blank,
  when the lowercase form of its first cell contains \<open>start\<close>, or that of its second cell
  contains \<open>stop\<close>, or that of its third cell contains \<open>filename\<close>, or the set of the
  three lowercase cells is \<open>start\<close>, \<open>stop\<close>, \<open>filename\<close> (a cell that the row does not
  have counts as empty). \<open>spec_data_rows\<close> are the rows that are neither blank nor that
  header row.
\<close>

definition cell :: "row \<Rightarrow> nat \<Rightarrow> string" where
  "cell r k = (if k < length r then r ! k else [])"

definition spec_header :: "row \<Rightarrow> bool" where
  "spec_header r \<longleftrightarrow>
     contains (lower (cell r 0)) ''start''
     \<or> contains (lower (cell r 1)) ''stop''
     \<or> contains (lower (cell r 2)) ''filename''
     \<or> {lower (cell r 0), lower (cell r 1), lower (cell r 2)} = {''start'', ''stop'', ''filename''}"

definition spec_data_rows :: "row list \<Rightarrow> row list" where
  "spec_data_rows rows =
     (case filter (\<lambda>r. \<not> blank_row r) rows of
        [] \<Rightarrow> []
      | r # rest \<Rightarrow> if spec_header r then rest else r # rest)"

text \<open>
  An \<^verbatim>\<open>[OK]\<close> line is suffix-named for a record when it shows the record's page range and
  a name made of the stem of the record's name, \<open>_n\<close> with some \<open>n \<ge> 1\<close>, and \<open>.pdf\<close>.
\<close>

definition suffix_named :: "range \<Rightarrow> string \<times> int \<times> int \<Rightarrow> bool" where
  "suffix_named r line \<longleftrightarrow>
     (case r of (start_page, end_page, output_file) \<Rightarrow>
        \<exists>n\<ge>1. line = (suffixed (stem (ensure_pdf_suffix output_file)) n, start_page, end_page))"

text \<open>
  The documents of a state are the locations that hold a document. The examples run in an
  output folder \<open>/out\<close> that has just been created and is empty, on a system that refuses
  nothing.
\<close>

definition documents :: "'p world \<Rightarrow> location set" where
  "documents w = {p. \<exists>d. fmlookup (nodes w) p = Some (Document d)}"

definition new_folder :: "'p world" where
  "new_folder =
     \<lparr>out_dir = [''out''], nodes = fmupd [''out''] Folder fmempty,
      stat_error = (\<lambda>name. None), open_error = (\<lambda>name. None), ok_lines = []\<rparr>"

text \<open>
  A later state extends an earlier one when the output folder and the refusals of the
  operating system are the same and every folder and document of the earlier state is
  still there, unchanged.
\<close>

definition extends :: "'p world \<Rightarrow> 'p world \<Rightarrow> bool" where
  "extends w w' \<longleftrightarrow>
     out_dir w' = out_dir w \<and> stat_error w' = stat_error w \<and> open_error w' = open_error w
     \<and> (\<forall>p d. fmlookup (nodes w) p = Some d \<longrightarrow> fmlookup (nodes w') p = Some d)"

section \<open>Lemmas on the loops\<close>

lemmas text_defs = strip_def isspace_def lower_def endswith_def py_int_def int_space_def
  unsigned_int_def is_digit_def digit_val_def

lemmas csv_defs = blank_row_def header_like_def read_with_def read_ranges_csv_def
  encodings_to_try_def

lemmas split_defs = sanity_checks_def ensure_pdf_suffix_def getitem_def path_name_def rfind_def
  stem_def suffixed_def page_span_def in_bounds_def node_at_def parts_def place_def
  path_exists_def open_wb_def split_range_def

lemma sanity_checks_None:
  "sanity_checks i n s e = None \<longleftrightarrow> in_bounds n s e"
  by (auto simp: sanity_checks_def in_bounds_def)

lemma add_pages_in_range:
  "\<forall>p \<in> set ps. 0 \<le> p \<and> p < int (length pages) \<Longrightarrow>
     add_pages pages ps writer = Inr (writer @ map (\<lambda>p. pages ! nat p) ps)"
  by (induction ps arbitrary: writer) (auto simp: getitem_def)

lemma upto_shift: "map (\<lambda>k. k - 1) [i .. j] = [i - 1 .. j - (1::int)]"
proof (induction i j rule: upto.induct)
  case (1 i j)
  show ?case
  proof (cases "i \<le> j")
    case True
    with 1 show ?thesis by (simp add: upto_rec1 [of i j] upto_rec1 [of "i - 1" "j - 1"])
  next
    case False
    then show ?thesis by simp
  qed
qed

lemma add_pages_span:
  assumes "in_bounds (int (length pages)) s e"
  shows "add_pages pages [s - 1 .. e - 1] [] = Inr (page_span pages s e)"
proof -
  from assms have "\<forall>p \<in> set [s - 1 .. e - 1]. 0 \<le> p \<and> p < int (length pages)"
    by (auto simp: in_bounds_def)
  then have "add_pages pages [s - 1 .. e - 1] [] = Inr ([] @ map (\<lambda>p. pages ! nat p) [s - 1 .. e - 1])"
    by (rule add_pages_in_range)
  also have "map (\<lambda>p. pages ! nat p) [s - 1 .. e - 1] = map ((\<lambda>p. pages ! nat p) \<circ> (\<lambda>k. k - 1)) [s .. e]"
    by (simp only: map_map [symmetric] upto_shift)
  finally show ?thesis by (simp add: page_span_def comp_def)
qed

lemma length_page_span: "s \<le> e \<Longrightarrow> int (length (page_span pages s e)) = e - s + 1"
  by (simp add: page_span_def)

lemma page_span_take_drop:
  assumes "in_bounds (int (length pages)) s e"
  shows "page_span pages s e = take (nat (e - s + 1)) (drop (nat (s - 1)) pages)"
proof (rule nth_equalityI)
  from assms show "length (page_span pages s e) = length (take (nat (e - s + 1)) (drop (nat (s - 1)) pages))"
    by (auto simp: page_span_def in_bounds_def)
next
  fix k assume "k < length (page_span pages s e)"
  then have k: "int k < e - s + 1" by (simp add: page_span_def)
  then have "s + int k \<le> e" by simp
  then have "[s..e] ! k = s + int k" by (rule nth_upto)
  moreover from assms have "nat (s + int k - 1) = nat (s - 1) + k" unfolding in_bounds_def by linarith
  moreover from assms have "nat (s - 1) \<le> length pages" unfolding in_bounds_def by linarith
  ultimately show "page_span pages s e ! k = take (nat (e - s + 1)) (drop (nat (s - 1)) pages) ! k"
    using k by (simp add: page_span_def)
qed

lemma avoid_overwriting_free:
  "avoid_overwriting w st p c = Inr out \<Longrightarrow> path_exists w out = Inr False"
proof (induction w st p c rule: avoid_overwriting.induct)
  case (1 w st p c)
  from "1.prems" show ?case
    by (subst (asm) avoid_overwriting.simps) (auto split: sum.splits if_splits dest: "1.IH")
qed

lemma avoid_overwriting_unused:
  "path_exists w p = Inr False \<Longrightarrow> avoid_overwriting w st p c = Inr p"
  by (simp add: avoid_overwriting.simps)

lemma avoid_overwriting_taken:
  "path_exists w p = Inr True \<Longrightarrow>
     avoid_overwriting w st p c = avoid_overwriting w st (suffixed st c) (Suc c)"
  by (subst avoid_overwriting.simps) simp

lemma avoid_overwriting_raises:
  "path_exists w p = Inl e \<Longrightarrow> avoid_overwriting w st p c = Inl e"
  by (simp add: avoid_overwriting.simps)

lemma avoid_overwriting_from_suffixed:
  "avoid_overwriting w st (suffixed st c) (Suc c) = Inr out \<Longrightarrow>
     \<exists>n\<ge>c. out = suffixed st n
        \<and> path_exists w (suffixed st n) = Inr False
        \<and> (\<forall>m. c \<le> m \<and> m < n \<longrightarrow> path_exists w (suffixed st m) = Inr True)"
proof (induction w st "suffixed st c" "Suc c" arbitrary: c rule: avoid_overwriting.induct)
  case (1 w st c)
  show ?case
  proof (cases "path_exists w (suffixed st c)")
    case (Inl e)
    with "1.prems" show ?thesis by (simp add: avoid_overwriting_raises)
  next
    case (Inr found)
    show ?thesis
    proof (cases found)
      case True
      with Inr have taken: "path_exists w (suffixed st c) = Inr True" by simp
      with "1.prems" have "avoid_overwriting w st (suffixed st (Suc c)) (Suc (Suc c)) = Inr out"
        by (simp add: avoid_overwriting_taken)
      with "1.hyps" [OF Inr True] obtain n where n: "Suc c \<le> n" "out = suffixed st n"
          "path_exists w (suffixed st n) = Inr False"
          "\<forall>m. Suc c \<le> m \<and> m < n \<longrightarrow> path_exists w (suffixed st m) = Inr True"
        by auto
      have "\<forall>m. c \<le> m \<and> m < n \<longrightarrow> path_exists w (suffixed st m) = Inr True"
      proof (intro allI impI)
        fix m assume "c \<le> m \<and> m < n"
        then have "m = c \<or> (Suc c \<le> m \<and> m < n)" by auto
        with taken n(4) show "path_exists w (suffixed st m) = Inr True" by auto
      qed
      with n show ?thesis by (auto intro!: exI [of _ n])
    next
      case False
      with Inr have free: "path_exists w (suffixed st c) = Inr False" by simp
      with "1.prems" have "out = suffixed st c"
        by (simp add: avoid_overwriting_unused)
      with free show ?thesis by (auto intro!: exI [of _ c])
    qed
  qed
qed

lemma avoid_overwriting_first_free:
  assumes "path_exists w p = Inr True" and "avoid_overwriting w st p 1 = Inr out"
  shows "\<exists>n\<ge>1. out = suffixed st n
      \<and> path_exists w (suffixed st n) = Inr False
      \<and> (\<forall>m. 1 \<le> m \<and> m < n \<longrightarrow> path_exists w (suffixed st m) = Inr True)"
proof -
  from assms have "avoid_overwriting w st (suffixed st 1) (Suc 1) = Inr out"
    by (simp add: avoid_overwriting_taken)
  then show ?thesis by (rule avoid_overwriting_from_suffixed)
qed

lemma avoid_overwriting_cases:
  assumes "avoid_overwriting w st p c = Inr out"
  shows "out = p \<or> (\<exists>n. out = suffixed st n)"
proof (cases "path_exists w p")
  case (Inl e)
  with assms show ?thesis by (simp add: avoid_overwriting_raises)
next
  case (Inr found)
  show ?thesis
  proof (cases found)
    case True
    with Inr assms have "avoid_overwriting w st (suffixed st c) (Suc c) = Inr out"
      by (simp add: avoid_overwriting_taken)
    then show ?thesis using avoid_overwriting_from_suffixed by blast
  next
    case False
    with Inr assms show ?thesis by (simp add: avoid_overwriting_unused)
  qed
qed

lemma open_wb_fresh:
  "path_exists w name = Inr False \<Longrightarrow> open_wb w name = Inr p \<Longrightarrow> node_at (nodes w) p = None"
  by (auto simp: path_exists_def open_wb_def split: if_splits option.splits sum.splits node.splits)

lemma node_at_None: "node_at t p = None \<longleftrightarrow> p \<noteq> [] \<and> fmlookup t p = None"
  by (simp add: node_at_def)

lemma split_range_in_bounds:
  assumes "in_bounds (int (length pages)) s e"
  shows "split_range pages i (s, e, name) w =
     (case avoid_overwriting w (stem (ensure_pdf_suffix name)) (ensure_pdf_suffix name) 1 of
        Inl err \<Rightarrow> Inl err
      | Inr out_path \<Rightarrow>
          (case open_wb w out_path of
             Inl err \<Rightarrow> Inl err
           | Inr p \<Rightarrow>
               Inr (w\<lparr>nodes := fmupd p (Document (page_span pages s e)) (nodes w),
                      ok_lines := ok_lines w @ [(out_path, s, e)]\<rparr>)))"
  using assms
  by (simp add: split_range_def sanity_checks_None [THEN iffD2] add_pages_span Let_def)

lemma split_range_fail:
  "sanity_checks i (int (length pages)) s e = Some err \<Longrightarrow>
     split_range pages i (s, e, name) w = Inl err"
  by (simp add: split_range_def)

lemma split_range_Inr:
  assumes "split_range pages i (s, e, name) w = Inr w'"
  obtains out_path p where "in_bounds (int (length pages)) s e"
    and "avoid_overwriting w (stem (ensure_pdf_suffix name)) (ensure_pdf_suffix name) 1
           = Inr out_path"
    and "path_exists w out_path = Inr False"
    and "open_wb w out_path = Inr p"
    and "node_at (nodes w) p = None"
    and "w' = w\<lparr>nodes := fmupd p (Document (page_span pages s e)) (nodes w),
                 ok_lines := ok_lines w @ [(out_path, s, e)]\<rparr>"
proof -
  from assms have "sanity_checks i (int (length pages)) s e = None"
    by (cases "sanity_checks i (int (length pages)) s e") (simp_all add: split_range_def)
  then have b: "in_bounds (int (length pages)) s e"
    by (simp add: sanity_checks_None)
  from assms obtain out_path p where
      a: "avoid_overwriting w (stem (ensure_pdf_suffix name)) (ensure_pdf_suffix name) 1
           = Inr out_path"
      and o: "open_wb w out_path = Inr p"
      and w': "w' = w\<lparr>nodes := fmupd p (Document (page_span pages s e)) (nodes w),
                 ok_lines := ok_lines w @ [(out_path, s, e)]\<rparr>"
    unfolding split_range_in_bounds [OF b] by (auto split: sum.splits)
  from a have f: "path_exists w out_path = Inr False"
    by (rule avoid_overwriting_free)
  from f o have n: "node_at (nodes w) p = None"
    by (rule open_wb_fresh)
  from b a f o n w' show ?thesis by (rule that)
qed

lemma extends_refl: "extends w w"
  by (simp add: extends_def)

lemma extends_trans: "extends a b \<Longrightarrow> extends b c \<Longrightarrow> extends a c"
  by (simp add: extends_def)

lemma split_range_extends:
  assumes "split_range pages i r w = Inr w'"
  shows "extends w w'"
proof -
  obtain s e name where r: "r = (s, e, name)" by (cases r)
  from assms obtain out_path p where "node_at (nodes w) p = None"
      "w' = w\<lparr>nodes := fmupd p (Document (page_span pages s e)) (nodes w),
                 ok_lines := ok_lines w @ [(out_path, s, e)]\<rparr>"
    unfolding r by (rule split_range_Inr)
  then show ?thesis by (auto simp: extends_def node_at_None)
qed

declare split_ranges.simps(2) [simp del]

lemma split_ranges_Cons_Inl:
  "split_range pages i r w = Inl e \<Longrightarrow> split_ranges pages i (r # rest) w = (Some e, w)"
  by (simp add: split_ranges.simps(2))

lemma split_ranges_Cons_Inr:
  "split_range pages i r w = Inr w' \<Longrightarrow>
     split_ranges pages i (r # rest) w = split_ranges pages (Suc i) rest w'"
  by (simp add: split_ranges.simps(2))

lemma split_ranges_Cons_None:
  assumes "split_ranges pages i (r # rest) w = (None, w')"
  obtains w1 where "split_range pages i r w = Inr w1"
    and "split_ranges pages (Suc i) rest w1 = (None, w')"
  using assms
  by (cases "split_range pages i r w") (simp_all add: split_ranges_Cons_Inl split_ranges_Cons_Inr)

lemma split_ranges_fail:
  assumes "sanity_checks i (int (length pages)) s e = Some err"
  shows "split_ranges pages i ((s, e, name) # rest) w = (Some err, w)"
  using assms by (simp add: split_ranges_Cons_Inl split_range_fail)

lemma split_ranges_append:
  "split_ranges pages i (xs @ ys) w =
     (case split_ranges pages i xs w of
        (None, w') \<Rightarrow> split_ranges pages (i + length xs) ys w'
      | (Some e, w') \<Rightarrow> (Some e, w'))"
proof (induction xs arbitrary: i w)
  case Nil
  then show ?case by simp
next
  case (Cons r xs)
  have shift: "i + length (r # xs) = Suc i + length xs" by simp
  show ?case
    unfolding shift
    by (cases "split_range pages i r w")
      (simp_all add: split_ranges_Cons_Inl split_ranges_Cons_Inr Cons.IH)
qed

lemma split_ranges_extends:
  "split_ranges pages i ranges w = (res, w') \<Longrightarrow> extends w w'"
proof (induction ranges arbitrary: i w)
  case Nil
  then show ?case by (simp add: extends_refl)
next
  case (Cons r ranges)
  show ?case
  proof (cases "split_range pages i r w")
    case (Inl e)
    with Cons.prems show ?thesis by (simp add: split_ranges_Cons_Inl extends_refl)
  next
    case (Inr w1)
    with Cons.prems have "split_ranges pages (Suc i) ranges w1 = (res, w')"
      by (simp add: split_ranges_Cons_Inr)
    then have "extends w1 w'" by (rule Cons.IH)
    with split_range_extends [OF Inr] show ?thesis by (rule extends_trans)
  qed
qed

lemma split_ranges_count:
  "split_ranges pages i ranges w = (None, w') \<Longrightarrow>
     card (fmdom' (nodes w')) = card (fmdom' (nodes w)) + length ranges
     \<and> length (ok_lines w') = length (ok_lines w) + length ranges"
proof (induction ranges arbitrary: i w)
  case Nil
  then show ?case by simp
next
  case (Cons r ranges)
  obtain s e name where r: "r = (s, e, name)" by (cases r)
  from Cons.prems obtain w1 where w1: "split_range pages i r w = Inr w1"
      "split_ranges pages (Suc i) ranges w1 = (None, w')"
    by (rule split_ranges_Cons_None)
  from w1(1) obtain out_path p where "node_at (nodes w) p = None"
      "w1 = w\<lparr>nodes := fmupd p (Document (page_span pages s e)) (nodes w),
                 ok_lines := ok_lines w @ [(out_path, s, e)]\<rparr>"
    unfolding r by (rule split_range_Inr)
  then have "card (fmdom' (nodes w1)) = card (fmdom' (nodes w)) + 1"
      "length (ok_lines w1) = length (ok_lines w) + 1"
    by (simp_all add: node_at_None fmdom'_notI)
  with Cons.IH [OF w1(2)] show ?case by simp
qed

lemma walk_extends:
  assumes "\<And>p d. node_at t p = Some d \<Longrightarrow> node_at t' p = Some d"
  shows "walk t cur cs = Inr p \<Longrightarrow> walk t' cur cs = Inr p"
proof (induction cs arbitrary: cur)
  case Nil
  then show ?case by simp
next
  case (Cons c cs)
  from Cons.prems have f: "node_at t cur = Some Folder"
    by (auto split: option.splits node.splits)
  then have "node_at t' cur = Some Folder" by (rule assms)
  with f Cons show ?case by simp
qed

lemma extends_node_at:
  "extends w w' \<Longrightarrow> node_at (nodes w) p = Some d \<Longrightarrow> node_at (nodes w') p = Some d"
  by (auto simp: extends_def node_at_def split: if_splits)

lemma place_extends:
  assumes "extends w w'" and "place w name = Inr p"
  shows "place w' name = Inr p"
proof -
  from assms(1) have o: "out_dir w' = out_dir w" by (simp add: extends_def)
  from assms(2) show ?thesis
    unfolding place_def o by (rule walk_extends [rotated]) (rule extends_node_at [OF assms(1)])
qed

lemma path_exists_extends:
  assumes "extends w w'" and "path_exists w name = Inr True"
  shows "path_exists w' name = Inr True"
proof -
  from assms(2) obtain p d where p: "CHR 0x00 \<notin> set name" "stat_error w name = None"
      "place w name = Inr p" "node_at (nodes w) p = Some d"
    by (auto simp: path_exists_True)
  from assms(1) p(3) have "place w' name = Inr p" by (rule place_extends)
  moreover from assms(1) p(4) have "node_at (nodes w') p = Some d" by (rule extends_node_at)
  moreover from assms(1) p(2) have "stat_error w' name = None" by (simp add: extends_def)
  ultimately show ?thesis using p(1) by (auto simp: path_exists_True)
qed

lemma split_range_name_exists:
  assumes "split_range pages i (s, e, name) w = Inr w'"
  shows "path_exists w' (ensure_pdf_suffix name) = Inr True"
proof -
  let ?n = "ensure_pdf_suffix name"
  from assms obtain out_path p where
      a: "avoid_overwriting w (stem ?n) ?n 1 = Inr out_path"
      and f: "path_exists w out_path = Inr False"
      and o: "open_wb w out_path = Inr p"
      and w': "w' = w\<lparr>nodes := fmupd p (Document (page_span pages s e)) (nodes w),
                 ok_lines := ok_lines w @ [(out_path, s, e)]\<rparr>"
    by (rule split_range_Inr)
  from assms have ext: "extends w w'" by (rule split_range_extends)
  show ?thesis
  proof (cases "path_exists w ?n")
    case (Inl err)
    with a show ?thesis by (simp add: avoid_overwriting_raises)
  next
    case (Inr found)
    show ?thesis
    proof (cases found)
      case True
      with Inr have "path_exists w ?n = Inr True" by simp
      with ext show ?thesis by (rule path_exists_extends)
    next
      case False
      with Inr have free: "path_exists w ?n = Inr False" by simp
      with a have same: "out_path = ?n" by (simp add: avoid_overwriting_unused)
      from o have nul: "CHR 0x00 \<notin> set ?n" and pl: "place w ?n = Inr p"
        unfolding same
        by (auto simp: open_wb_def split: if_splits option.splits sum.splits node.splits)
      from free nul have st: "stat_error w ?n = None"
        by (auto simp: path_exists_def split: option.splits)
      from ext pl have "place w' ?n = Inr p" by (rule place_extends)
      moreover from f o have "p \<noteq> []" using open_wb_fresh node_at_None by blast
      then have "node_at (nodes w') p \<noteq> None" by (simp add: w' node_at_def)
      moreover from ext st have "stat_error w' ?n = None" by (simp add: extends_def)
      ultimately show ?thesis using nul by (auto simp: path_exists_True)
    qed
  qed
qed

lemma split_ranges_names_exist:
  "split_ranges pages i ranges w = (None, w') \<Longrightarrow> (s, e, name) \<in> set ranges \<Longrightarrow>
     path_exists w' (ensure_pdf_suffix name) = Inr True"
proof (induction ranges arbitrary: i w)
  case Nil
  then show ?case by simp
next
  case (Cons r ranges)
  from Cons.prems(1) obtain w1 where w1: "split_range pages i r w = Inr w1"
      "split_ranges pages (Suc i) ranges w1 = (None, w')"
    by (rule split_ranges_Cons_None)
  show ?case
  proof (cases "(s, e, name) \<in> set ranges")
    case True
    with w1(2) show ?thesis by (rule Cons.IH)
  next
    case False
    with Cons.prems(2) have "r = (s, e, name)" by simp
    with w1(1) have "path_exists w1 (ensure_pdf_suffix name) = Inr True"
      by (simp add: split_range_name_exists)
    with split_ranges_extends [OF w1(2)] show ?thesis by (rule path_exists_extends)
  qed
qed

lemma split_ranges_second_run:
  "split_ranges pages i ranges w = (None, w') \<Longrightarrow>
   \<forall>(s, e, name) \<in> set ranges. path_exists w (ensure_pdf_suffix name) = Inr True \<Longrightarrow>
     \<exists>new. ok_lines w' = ok_lines w @ new \<and> list_all2 suffix_named ranges new"
proof (induction ranges arbitrary: i w)
  case Nil
  then show ?case by simp
next
  case (Cons r ranges)
  obtain s e name where r: "r = (s, e, name)" by (cases r)
  let ?n = "ensure_pdf_suffix name"
  from Cons.prems(1) obtain w1 where w1: "split_range pages i r w = Inr w1"
      "split_ranges pages (Suc i) ranges w1 = (None, w')"
    by (rule split_ranges_Cons_None)
  from w1(1) obtain out_path p where
      a: "avoid_overwriting w (stem ?n) ?n 1 = Inr out_path"
      and l: "w1 = w\<lparr>nodes := fmupd p (Document (page_span pages s e)) (nodes w),
                 ok_lines := ok_lines w @ [(out_path, s, e)]\<rparr>"
    unfolding r by (rule split_range_Inr)
  from Cons.prems(2) r have "path_exists w ?n = Inr True" by simp
  from this a obtain n where "1 \<le> n" "out_path = suffixed (stem ?n) n"
    using avoid_overwriting_first_free by blast
  then have named: "suffix_named r (out_path, s, e)"
    by (auto simp: suffix_named_def r)
  from w1(1) have ext: "extends w w1" by (rule split_range_extends)
  have "\<forall>(s, e, name) \<in> set ranges. path_exists w1 (ensure_pdf_suffix name) = Inr True"
  proof (clarify)
    fix s' e' name' assume "(s', e', name') \<in> set ranges"
    with Cons.prems(2) have "path_exists w (ensure_pdf_suffix name') = Inr True" by auto
    with ext show "path_exists w1 (ensure_pdf_suffix name') = Inr True"
      by (rule path_exists_extends)
  qed
  with w1(2) obtain new where new: "ok_lines w' = ok_lines w1 @ new"
      "list_all2 suffix_named ranges new"
    using Cons.IH by blast
  from new named show ?case
    by (intro exI [of _ "(out_path, s, e) # new"]) (simp add: l)
qed

declare read_rows.simps(2) [simp del]

lemma read_rows_blank:
  "blank_row r \<Longrightarrow> read_rows i (r # rest) rows = read_rows (Suc i) rest rows"
  by (simp add: read_rows.simps(2))

lemma read_rows_short:
  "\<not> blank_row r \<Longrightarrow> length r < 3 \<Longrightarrow>
     read_rows i (r # rest) rows = Inl (ColumnCount i (length r) r)"
  by (simp add: read_rows.simps(2))

lemma read_rows_header:
  "\<not> blank_row r \<Longrightarrow> 3 \<le> length r \<Longrightarrow>
     header_like (strip (r ! 0)) (strip (r ! 1)) (strip (r ! 2)) \<Longrightarrow>
     read_rows 1 (r # rest) rows = read_rows 2 rest rows"
  by (simp add: read_rows.simps(2) del: One_nat_def)

lemma read_rows_data:
  assumes "\<not> blank_row r" and "3 \<le> length r"
    and "\<not> (i = 1 \<and> header_like (strip (r ! 0)) (strip (r ! 1)) (strip (r ! 2)))"
  shows "read_rows i (r # rest) rows =
       (case py_int (strip (r ! 0)) of
          None \<Rightarrow> Inl (NotIntegers i (strip (r ! 0)) (strip (r ! 1)))
        | Some start_page \<Rightarrow>
            (case py_int (strip (r ! 1)) of
               None \<Rightarrow> Inl (NotIntegers i (strip (r ! 0)) (strip (r ! 1)))
             | Some end_page \<Rightarrow>
                 if strip (r ! 2) = [] then Inl (BlankFilename i)
                 else read_rows (Suc i) rest (rows @ [(start_page, end_page, strip (r ! 2))])))"
proof -
  from assms(1, 2) have "\<not> length r < 3" "\<not> blank_row r" by simp_all
  then show ?thesis
    by (simp only: read_rows.simps(2) [of i r] if_False Let_def assms(3))
qed

lemma read_rows_blanks:
  "list_all blank_row blanks \<Longrightarrow>
     read_rows i (blanks @ rest) rows = read_rows (i + length blanks) rest rows"
  by (induction blanks arbitrary: i) (simp_all add: read_rows_blank)

lemma read_rows_Cons_cases:
  obtains (fails) e where "\<And>rest rows. read_rows i (r # rest) rows = Inl e"
  | (skips) "\<And>rest rows. read_rows i (r # rest) rows = read_rows (Suc i) rest rows"
  | (yields) x where
      "\<And>rest rows. read_rows i (r # rest) rows = read_rows (Suc i) rest (rows @ [x])"
proof (cases "blank_row r")
  case True
  then show ?thesis by (intro skips) (simp add: read_rows_blank)
next
  case nonblank: False
  show ?thesis
  proof (cases "length r < 3")
    case True
    with nonblank show ?thesis by (intro fails) (simp add: read_rows_short)
  next
    case False
    then have cells: "3 \<le> length r" by simp
    show ?thesis
    proof (cases "i = 1 \<and> header_like (strip (r ! 0)) (strip (r ! 1)) (strip (r ! 2))")
      case True
      with nonblank cells show ?thesis
        by (intro skips) (simp add: read_rows_header del: One_nat_def)
    next
      case data: False
      note step = read_rows_data [OF nonblank cells data]
      show ?thesis
      proof (cases "py_int (strip (r ! 0))")
        case None
        then show ?thesis by (intro fails) (simp add: step)
      next
        case start: (Some start_page)
        show ?thesis
        proof (cases "py_int (strip (r ! 1))")
          case None
          with start show ?thesis by (intro fails) (simp add: step)
        next
          case stop: (Some end_page)
          show ?thesis
          proof (cases "strip (r ! 2) = []")
            case True
            with start stop show ?thesis by (intro fails) (simp add: step)
          next
            case False
            with start stop show ?thesis by (intro yields) (simp add: step)
          qed
        qed
      qed
    qed
  qed
qed

lemma read_rows_append:
  "read_rows i (xs @ ys) rows =
     (case read_rows i xs rows of
        Inl e \<Rightarrow> Inl e
      | Inr rows' \<Rightarrow> read_rows (i + length xs) ys rows')"
proof (induction xs arbitrary: i rows)
  case Nil
  then show ?case by simp
next
  case (Cons r xs)
  have shift: "i + length (r # xs) = Suc i + length xs" by simp
  show ?case
    unfolding shift by (cases i r rule: read_rows_Cons_cases) (simp_all add: Cons.IH)
qed

declare try_encodings.simps(2) [simp del]

lemma try_encodings_decode_failed:
  "decode_failed (f enc) \<Longrightarrow>
     try_encodings f (enc # encs) last_err opened =
       try_encodings f encs (case read_with (f enc) of Inl e \<Rightarrow> Some e | Inr rows \<Rightarrow> None) (opened @ [enc])"
  by (auto simp: try_encodings.simps(2) decode_failed_def split: sum.splits)

lemma try_encodings_other:
  "\<not> decode_failed (f enc) \<Longrightarrow>
     try_encodings f (enc # encs) last_err opened = (opened @ [enc], read_with (f enc))"
  by (auto simp: try_encodings.simps(2) decode_failed_def split: sum.splits)

lemma try_encodings_skip:
  "\<forall>x \<in> set before. decode_failed (f x) \<Longrightarrow> \<not> decode_failed (f enc) \<Longrightarrow>
     try_encodings f (before @ enc # after) last_err opened
       = (opened @ before @ [enc], read_with (f enc))"
proof (induction before arbitrary: last_err opened)
  case Nil
  then show ?case by (simp add: try_encodings_other)
next
  case (Cons x before)
  then show ?case by (simp add: try_encodings_decode_failed)
qed

lemma read_ranges_csv_cases:
  "read_ranges_csv f =
     (if \<not> decode_failed (f Utf8Sig) then ([Utf8Sig], read_with (f Utf8Sig))
      else if \<not> decode_failed (f Utf8) then ([Utf8Sig, Utf8], read_with (f Utf8))
      else ([Utf8Sig, Utf8, Cp1252], read_with (f Cp1252)))"
  by (auto simp: read_ranges_csv_def encodings_to_try_def try_encodings.simps(2) decode_failed_def
      split: sum.splits)

lemma read_rows_error_kind:
  "read_rows i rows acc = Inl e \<Longrightarrow> malformed_row_error e"
proof (induction rows arbitrary: i acc)
  case Nil
  then show ?case by simp
next
  case (Cons r rows)
  then show ?case
    by (auto simp: read_rows.simps(2) [of i r] Let_def split: if_splits option.splits)
qed

lemma malformed_not_decode: "malformed_row_error e \<Longrightarrow> \<not> is_decode_error e"
  by (cases e) simp_all

lemma read_with_row_error:
  "read_rows 1 (yielded rd) [] = Inl e \<Longrightarrow> read_with rd = Inl e \<and> \<not> decode_failed rd"
  by (auto simp: read_with_def decode_failed_def dest!: read_rows_error_kind malformed_not_decode)

lemma opened_before_last_failed:
  "\<forall>x \<in> set (butlast (fst (read_ranges_csv f))). decode_failed (f x)"
  by (simp add: read_ranges_csv_cases)

lemma read_rows_count:
  "read_rows i rows acc = Inr ranges \<Longrightarrow>
     length ranges = length acc + length (data_rows i rows)"
proof (induction rows arbitrary: i acc)
  case Nil
  then show ?case by (simp add: data_rows_def)
next
  case (Cons r rows)
  show ?case
  proof (cases "blank_row r")
    case True
    with Cons show ?thesis by (simp add: read_rows_blank data_rows_def)
  next
    case nonblank: False
    show ?thesis
    proof (cases "length r < 3")
      case True
      with nonblank Cons.prems show ?thesis by (simp add: read_rows_short)
    next
      case False
      then have cells: "3 \<le> length r" by simp
      show ?thesis
      proof (cases "i = 1 \<and> header_like (strip (r ! 0)) (strip (r ! 1)) (strip (r ! 2))")
        case True
        with nonblank cells Cons.prems have "read_rows (Suc i) rows acc = Inr ranges"
          by (simp add: read_rows_header del: One_nat_def)
        then have "length ranges = length acc + length (data_rows (Suc i) rows)"
          by (rule Cons.IH)
        with True cells show ?thesis by (simp add: data_rows_def header_row_def del: One_nat_def)
      next
        case data: False
        from Cons.prems obtain x where "read_rows (Suc i) rows (acc @ [x]) = Inr ranges"
          by (auto simp: read_rows_data [OF nonblank cells data] split: option.splits if_splits)
        then have "length ranges = length (acc @ [x]) + length (data_rows (Suc i) rows)"
          by (rule Cons.IH)
        with nonblank data show ?thesis
          by (auto simp add: data_rows_def header_row_def simp del: One_nat_def)
      qed
    qed
  qed
qed

lemma read_ranges_csv_Inr:
  assumes "read_ranges_csv f = (opened, Inr ranges)"
  shows "opened \<noteq> [] \<and> read_rows 1 (yielded (f (last opened))) [] = Inr ranges"
proof -
  have "read_with rd = Inr ranges \<Longrightarrow> read_rows 1 (yielded rd) [] = Inr ranges" for rd
    by (auto simp: read_with_def split: sum.splits option.splits)
  with assms show ?thesis
    by (auto simp: read_ranges_csv_cases split: if_splits)
qed

lemma endswith_append_self: "endswith (xs @ suf) suf"
  by (simp add: endswith_def)

lemma lower_append: "lower (a @ b) = lower a @ lower b"
  by (simp add: lower_def)

lemma lower_pdf: "lower ''.pdf'' = ''.pdf''"
  by (simp add: lower_def)

lemma ensure_pdf_suffix_ends: "endswith (lower (ensure_pdf_suffix name)) ''.pdf''"
  by (simp add: ensure_pdf_suffix_def Let_def lower_append lower_pdf endswith_append_self)

lemma suffixed_ends: "endswith (lower (suffixed st n)) ''.pdf''"
proof -
  have "suffixed st n = (st @ ''_'' @ show_nat n) @ ''.pdf''"
    by (simp add: suffixed_def)
  then show ?thesis
    by (simp only: lower_append lower_pdf endswith_append_self)
qed

lemma lower_char_keeps_bits:
  "lower_char (Char b0 b1 b2 b3 b4 b5 b6 b7) = Char b0 b1 b2 b3 b4 b5 b6 b7
   \<or> lower_char (Char b0 b1 b2 b3 b4 b5 b6 b7) = Char b0 b1 b2 b3 b4 True b6 b7"
  unfolding lower_char.simps Let_def by (rule if_split [THEN iffD2]) blast

lemma lower_char_eq_Char:
  assumes "lower_char x = Char c0 c1 c2 c3 c4 c5 c6 c7"
  shows "x = Char c0 c1 c2 c3 c4 c5 c6 c7 \<or> x = Char c0 c1 c2 c3 c4 False c6 c7"
proof (cases x)
  case (Char b0 b1 b2 b3 b4 b5 b6 b7)
  with assms lower_char_keeps_bits [of b0 b1 b2 b3 b4 b5 b6 b7] show ?thesis
    by (cases b5) (auto simp del: lower_char.simps)
qed

lemma lower_char_dot: "lower_char x = CHR ''.'' \<longleftrightarrow> x = CHR ''.''"
  using lower_char_eq_Char [of x False True True True False True False False] by auto

lemma lower_char_p: "lower_char x = CHR ''p'' \<longleftrightarrow> x = CHR ''p'' \<or> x = CHR ''P''"
  using lower_char_eq_Char [of x False False False False True True True False] by auto

lemma lower_char_d: "lower_char x = CHR ''d'' \<longleftrightarrow> x = CHR ''d'' \<or> x = CHR ''D''"
  using lower_char_eq_Char [of x False False True False False True True False] by auto

lemma lower_char_f: "lower_char x = CHR ''f'' \<longleftrightarrow> x = CHR ''f'' \<or> x = CHR ''F''"
  using lower_char_eq_Char [of x False True True False False True True False] by auto

lemma endswith_iff: "endswith s suf \<longleftrightarrow> (\<exists>pre. s = pre @ suf)"
proof
  assume "endswith s suf"
  then have "s = take (length s - length suf) s @ suf"
    by (metis append_take_drop_id endswith_def)
  then show "\<exists>pre. s = pre @ suf" ..
next
  assume "\<exists>pre. s = pre @ suf"
  then show "endswith s suf" by (auto simp: endswith_append_self)
qed

lemma endswith_lower_pdf:
  "endswith (lower s) ''.pdf'' \<longleftrightarrow>
     (\<exists>pre a b c. s = pre @ [CHR ''.'', a, b, c]
        \<and> a \<in> {CHR ''p'', CHR ''P''} \<and> b \<in> {CHR ''d'', CHR ''D''} \<and> c \<in> {CHR ''f'', CHR ''F''})"
proof
  assume "endswith (lower s) ''.pdf''"
  then obtain pre where "map lower_char s = pre @ ''.pdf''"
    by (auto simp: endswith_iff lower_def)
  then obtain us vs where s: "s = us @ vs" and "map lower_char vs = ''.pdf''"
    by (auto simp: map_eq_append_conv)
  then obtain z a b c where vs: "vs = [z, a, b, c]" and
    "lower_char z = CHR ''.''" "lower_char a = CHR ''p''" "lower_char b = CHR ''d''"
    "lower_char c = CHR ''f''"
    by (auto simp: map_eq_Cons_conv)
  with s show "\<exists>pre a b c. s = pre @ [CHR ''.'', a, b, c]
        \<and> a \<in> {CHR ''p'', CHR ''P''} \<and> b \<in> {CHR ''d'', CHR ''D''} \<and> c \<in> {CHR ''f'', CHR ''F''}"
    by (auto simp: lower_char_dot lower_char_p lower_char_d lower_char_f)
next
  assume "\<exists>pre a b c. s = pre @ [CHR ''.'', a, b, c]
        \<and> a \<in> {CHR ''p'', CHR ''P''} \<and> b \<in> {CHR ''d'', CHR ''D''} \<and> c \<in> {CHR ''f'', CHR ''F''}"
  then obtain pre a b c where s: "s = pre @ [CHR ''.'', a, b, c]"
    and "lower_char a = CHR ''p''" "lower_char b = CHR ''d''" "lower_char c = CHR ''f''"
    by (auto simp: lower_char_p lower_char_d lower_char_f)
  then have "lower s = lower pre @ ''.pdf''"
    by (simp add: lower_def)
  then show "endswith (lower s) ''.pdf''"
    by (simp add: endswith_append_self)
qed

lemma avoid_overwriting_ends:
  assumes "avoid_overwriting w st (ensure_pdf_suffix name) c = Inr out"
  shows "endswith (lower out) ''.pdf''"
  using avoid_overwriting_cases [OF assms]
  by (auto simp: ensure_pdf_suffix_ends suffixed_ends)

lemma path_exists_answers:
  "stat_error w name = None \<Longrightarrow> path_exists w name = Inr False \<or> path_exists w name = Inr True"
  by (auto simp: path_exists_def split: sum.splits)

lemma avoid_overwriting_returns:
  "\<forall>name. stat_error w name = None \<Longrightarrow> \<exists>out. avoid_overwriting w st p c = Inr out"
proof (induction w st p c rule: avoid_overwriting.induct)
  case (1 w st p c)
  from "1.prems" have "path_exists w p = Inr False \<or> path_exists w p = Inr True"
    by (simp add: path_exists_answers)
  then show ?case
  proof
    assume "path_exists w p = Inr False"
    then show ?thesis by (simp add: avoid_overwriting_unused)
  next
    assume taken: "path_exists w p = Inr True"
    then have "\<exists>out. avoid_overwriting w st (suffixed st c) (c + 1) = Inr out"
      using "1.prems" by (intro "1.IH") simp_all
    with taken show ?thesis by (simp add: avoid_overwriting_taken)
  qed
qed

lemma finite_documents: "finite (documents w)"
proof (rule finite_subset)
  show "documents w \<subseteq> fmdom' (nodes w)"
    by (auto simp: documents_def intro: fmdom'I)
qed simp

lemma documents_written:
  assumes "node_at (nodes w) p = None"
  shows "documents (w\<lparr>nodes := fmupd p (Document d) (nodes w), ok_lines := l\<rparr>)
           = insert p (documents w) \<and> p \<notin> documents w"
  using assms by (auto simp: documents_def node_at_None)

lemma split_ranges_documents:
  "split_ranges pages i ranges w = (None, w') \<Longrightarrow>
     card (documents w') = card (documents w) + length ranges"
proof (induction ranges arbitrary: i w)
  case Nil
  then show ?case by simp
next
  case (Cons r ranges)
  obtain s e name where r: "r = (s, e, name)" by (cases r)
  from Cons.prems obtain w1 where w1: "split_range pages i r w = Inr w1"
      "split_ranges pages (Suc i) ranges w1 = (None, w')"
    by (rule split_ranges_Cons_None)
  from w1(1) obtain out_path p where "node_at (nodes w) p = None"
      "w1 = w\<lparr>nodes := fmupd p (Document (page_span pages s e)) (nodes w),
                 ok_lines := ok_lines w @ [(out_path, s, e)]\<rparr>"
    unfolding r by (rule split_range_Inr)
  then have "card (documents w1) = card (documents w) + 1"
    by (simp add: documents_written finite_documents)
  with Cons.IH [OF w1(2)] show ?case by simp
qed

lemma strip_parts:
  "\<exists>a b. s = a @ strip s @ b \<and> list_all isspace a \<and> list_all isspace b"
proof -
  let ?t = "dropWhile isspace s"
  have "s = takeWhile isspace s @ ?t" by simp
  moreover have "?t = strip s @ rev (takeWhile isspace (rev ?t))"
    unfolding strip_def by (metis rev_append rev_rev_ident takeWhile_dropWhile_id)
  moreover have "list_all isspace (takeWhile isspace s)"
    by (auto simp: list_all_iff dest: set_takeWhileD)
  moreover have "list_all isspace (rev (takeWhile isspace (rev ?t)))"
    by (auto simp: list_all_iff dest: set_takeWhileD)
  ultimately show ?thesis by metis
qed

lemma strip_ends:
  assumes "strip s \<noteq> []"
  shows "\<not> isspace (hd (strip s)) \<and> \<not> isspace (last (strip s))"
proof -
  let ?t = "dropWhile isspace s"
  let ?u = "dropWhile isspace (rev ?t)"
  from assms have u: "?u \<noteq> []" by (simp add: strip_def)
  then have "\<not> isspace (hd ?u)" by (rule hd_dropWhile)
  with u have l: "\<not> isspace (last (strip s))"
    by (simp add: strip_def last_rev)
  have "?t = strip s @ rev (takeWhile isspace (rev ?t))"
    unfolding strip_def by (metis rev_append rev_rev_ident takeWhile_dropWhile_id)
  with assms have "hd (strip s) = hd ?t" "?t \<noteq> []"
    by (metis hd_append2, metis append_is_Nil_conv)
  moreover from this(2) have "\<not> isspace (hd ?t)" by (rule hd_dropWhile)
  ultimately show ?thesis using l by simp
qed

lemma isspace_chars:
  "isspace c \<longleftrightarrow>
     c \<in> {CHR 0x09, CHR 0x0A, CHR 0x0B, CHR 0x0C, CHR 0x0D, CHR 0x1C, CHR 0x1D, CHR 0x1E,
          CHR 0x1F, CHR 0x20, CHR 0x85, CHR 0xA0}"
proof -
  define n where "n = (of_char c :: nat)"
  have "isspace c \<longleftrightarrow> n \<in> {9, 10, 11, 12, 13, 28, 29, 30, 31, 32, 133, 160}"
    unfolding isspace_def n_def Let_def by auto
  also have "\<dots> \<longleftrightarrow> n \<in> of_char ` {CHR 0x09, CHR 0x0A, CHR 0x0B, CHR 0x0C, CHR 0x0D, CHR 0x1C,
      CHR 0x1D, CHR 0x1E, CHR 0x1F, CHR 0x20, CHR 0x85, CHR 0xA0}"
    by simp
  also have "\<dots> \<longleftrightarrow> c \<in> {CHR 0x09, CHR 0x0A, CHR 0x0B, CHR 0x0C, CHR 0x0D, CHR 0x1C,
      CHR 0x1D, CHR 0x1E, CHR 0x1F, CHR 0x20, CHR 0x85, CHR 0xA0}"
    unfolding n_def by (simp only: inj_image_mem_iff [OF inj_of_char])
  finally show ?thesis .
qed

lemma avoid_overwriting_trace:
  "\<exists>n\<ge>c. (\<forall>m. c \<le> m \<and> m < n \<longrightarrow> path_exists w (suffixed st m) = Inr True)
      \<and> ((\<exists>e. path_exists w (suffixed st n) = Inl e
             \<and> avoid_overwriting w st (suffixed st c) (Suc c) = Inl e)
         \<or> (path_exists w (suffixed st n) = Inr False
             \<and> avoid_overwriting w st (suffixed st c) (Suc c) = Inr (suffixed st n)))"
proof (induction w st "suffixed st c" "Suc c" arbitrary: c rule: avoid_overwriting.induct)
  case (1 w st c)
  show ?case
  proof (cases "path_exists w (suffixed st c)")
    case (Inl e)
    then show ?thesis by (intro exI [of _ c]) (auto simp: avoid_overwriting_raises)
  next
    case (Inr found)
    show ?thesis
    proof (cases found)
      case True
      with Inr have taken: "path_exists w (suffixed st c) = Inr True" by simp
      then have step: "avoid_overwriting w st (suffixed st c) (Suc c)
          = avoid_overwriting w st (suffixed st (Suc c)) (Suc (Suc c))"
        by (rule avoid_overwriting_taken)
      from "1.hyps" [OF Inr True] obtain n where n: "Suc c \<le> n"
        and before: "\<forall>m. Suc c \<le> m \<and> m < n \<longrightarrow> path_exists w (suffixed st m) = Inr True"
        and last: "(\<exists>e. path_exists w (suffixed st n) = Inl e
             \<and> avoid_overwriting w st (suffixed st (Suc c)) (Suc (Suc c)) = Inl e)
         \<or> (path_exists w (suffixed st n) = Inr False
             \<and> avoid_overwriting w st (suffixed st (Suc c)) (Suc (Suc c)) = Inr (suffixed st n))"
        by auto
      have "\<forall>m. c \<le> m \<and> m < n \<longrightarrow> path_exists w (suffixed st m) = Inr True"
      proof (intro allI impI)
        fix m assume "c \<le> m \<and> m < n"
        then have "m = c \<or> (Suc c \<le> m \<and> m < n)" by auto
        with taken before show "path_exists w (suffixed st m) = Inr True" by auto
      qed
      with n last show ?thesis
        unfolding step by (intro exI [of _ n]) simp
    next
      case False
      with Inr have "path_exists w (suffixed st c) = Inr False" by simp
      then show ?thesis by (intro exI [of _ c]) (auto simp: avoid_overwriting_unused)
    qed
  qed
qed

lemma path_exists_ok_lines: "path_exists (w\<lparr>ok_lines := l\<rparr>) name = path_exists w name"
  by (auto simp: path_exists_def place_def split: option.splits sum.splits)

section \<open>The claims\<close>

text \<open>
  Claim C1 says that the tool produces one output document for every validated record. On
  a document of one page the record \<open>1,1,sub/a\<close> is in bounds. In an output folder that
  has no folder \<open>sub\<close>, the path \<open>sub/a.pdf\<close> does not exist, opening it for writing
  raises \<^verbatim>\<open>FileNotFoundError\<close>, and the run ends with that exception: no document is
  produced.
\<close>

theorem C1_counterexample:
  "in_bounds (int (length [10 :: nat])) 1 1
   \<and> split_ranges [10 :: nat] 1 [(1, 1, ''sub/a'')] new_folder
       = (Some FileNotFoundError, new_folder)"
  by (simp add: split_ranges.simps(2) new_folder_def text_defs split_defs
      avoid_overwriting.simps Let_def)

text \<open>
  Claim C1, amended. For a record that is in bounds for the source document, the loop
  first looks for a path that does not exist, and opens it for writing. When
  \<^verbatim>\<open>exists()\<close> or \<^verbatim>\<open>open()\<close> raises, the run ends with that exception and nothing is
  written for the record. Otherwise the loop writes exactly one document: the state after
  the record is the state before it with one document added, at a location that held
  nothing, and one \<^verbatim>\<open>[OK]\<close> line. The document holds the pages \<open>start_page\<close> to
  \<open>end_page\<close> of the source (counted from 1, both ends included), in their order, which
  is the slice of \<open>end_page - start_page + 1\<close> pages that follows the first
  \<open>start_page - 1\<close> pages; so its page count is \<open>end_page - start_page + 1\<close>.
\<close>

theorem C1_record_yields_its_page_span:
  assumes "in_bounds (int (length pages)) start_page end_page"
  shows "split_ranges pages i [(start_page, end_page, output_file)] w =
           (case avoid_overwriting w (stem (ensure_pdf_suffix output_file))
                   (ensure_pdf_suffix output_file) 1 of
              Inl err \<Rightarrow> (Some err, w)
            | Inr out_path \<Rightarrow>
                (case open_wb w out_path of
                   Inl err \<Rightarrow> (Some err, w)
                 | Inr p \<Rightarrow>
                     (None,
                      w\<lparr>nodes := fmupd p (Document (page_span pages start_page end_page))
                                  (nodes w),
                        ok_lines := ok_lines w @ [(out_path, start_page, end_page)]\<rparr>)))
         \<and> (avoid_overwriting w (stem (ensure_pdf_suffix output_file))
                   (ensure_pdf_suffix output_file) 1 = Inr out_path
              \<and> open_wb w out_path = Inr p
            \<longrightarrow> p \<noteq> [] \<and> fmlookup (nodes w) p = None)
         \<and> page_span pages start_page end_page
             = take (nat (end_page - start_page + 1)) (drop (nat (start_page - 1)) pages)
         \<and> int (length (page_span pages start_page end_page)) = end_page - start_page + 1"
proof (intro conjI impI)
  show "split_ranges pages i [(start_page, end_page, output_file)] w =
           (case avoid_overwriting w (stem (ensure_pdf_suffix output_file))
                   (ensure_pdf_suffix output_file) 1 of
              Inl err \<Rightarrow> (Some err, w)
            | Inr out_path \<Rightarrow>
                (case open_wb w out_path of
                   Inl err \<Rightarrow> (Some err, w)
                 | Inr p \<Rightarrow>
                     (None,
                      w\<lparr>nodes := fmupd p (Document (page_span pages start_page end_page))
                                  (nodes w),
                        ok_lines := ok_lines w @ [(out_path, start_page, end_page)]\<rparr>)))"
    by (simp add: split_ranges.simps(2) split_range_in_bounds [OF assms] split: sum.splits)
next
  assume "avoid_overwriting w (stem (ensure_pdf_suffix output_file))
                   (ensure_pdf_suffix output_file) 1 = Inr out_path
              \<and> open_wb w out_path = Inr p"
  then have "path_exists w out_path = Inr False" "open_wb w out_path = Inr p"
    by (blast intro: avoid_overwriting_free)+
  then have "node_at (nodes w) p = None" by (rule open_wb_fresh)
  then show "p \<noteq> []" "fmlookup (nodes w) p = None"
    by (simp_all add: node_at_None)
next
  from assms show "page_span pages start_page end_page
             = take (nat (end_page - start_page + 1)) (drop (nat (start_page - 1)) pages)"
    by (rule page_span_take_drop)
next
  from assms have "start_page \<le> end_page" by (simp add: in_bounds_def)
  then show "int (length (page_span pages start_page end_page)) = end_page - start_page + 1"
    by (rule length_page_span)
qed

text \<open>
  Pages 2 to 3 of a document of three pages: into the new folder under the name \<open>x\<close>,
  and under the name \<open>./x\<close> when \<open>x.pdf\<close> is there already.
\<close>

theorem C1_witness:
  "in_bounds (int (length [10, 20, 30 :: nat])) 2 3
   \<and> split_ranges [10, 20, 30 :: nat] 1 [(2, 3, ''x'')] new_folder
       = (None, new_folder\<lparr>nodes := fmupd [''out'', ''x.pdf''] (Document [20, 30])
                                       (nodes new_folder),
                            ok_lines := [(''x.pdf'', 2, 3)]\<rparr>)
   \<and> split_ranges [10, 20, 30 :: nat] 2 [(2, 3, ''./x'')]
         (new_folder\<lparr>nodes := fmupd [''out'', ''x.pdf''] (Document [10]) (nodes new_folder)\<rparr>)
       = (None,
          new_folder\<lparr>nodes := fmupd [''out'', ''x_1.pdf''] (Document [20, 30])
                        (fmupd [''out'', ''x.pdf''] (Document [10]) (nodes new_folder)),
                     ok_lines := [(''x_1.pdf'', 2, 3)]\<rparr>)
   \<and> avoid_overwriting (new_folder :: nat world) (stem (ensure_pdf_suffix ''x''))
         (ensure_pdf_suffix ''x'') 1 = Inr ''x.pdf''
   \<and> open_wb (new_folder :: nat world) ''x.pdf'' = Inr [''out'', ''x.pdf'']
   \<and> fmlookup (nodes (new_folder :: nat world)) [''out'', ''x.pdf''] = None"
proof -
  let ?w = "new_folder :: nat world"
  let ?v = "?w\<lparr>nodes := fmupd [''out'', ''x.pdf''] (Document [10]) (nodes ?w)\<rparr>"
  have h: "in_bounds (int (length [10, 20, 30 :: nat])) 2 3"
    by (simp add: in_bounds_def)
  have name: "ensure_pdf_suffix ''x'' = ''x.pdf''" "ensure_pdf_suffix ''./x'' = ''./x.pdf''"
      "stem ''x.pdf'' = ''x''" "stem ''./x.pdf'' = ''x''"
    by (simp_all add: text_defs split_defs)
  have path: "avoid_overwriting ?w ''x'' ''x.pdf'' 1 = Inr ''x.pdf''"
      "avoid_overwriting ?v ''x'' ''./x.pdf'' 1 = Inr ''x_1.pdf''"
    by (simp_all add: avoid_overwriting.simps new_folder_def split_defs show_nat.simps)
  have opened: "open_wb ?w ''x.pdf'' = Inr [''out'', ''x.pdf'']"
      "open_wb ?v ''x_1.pdf'' = Inr [''out'', ''x_1.pdf'']"
    by (simp_all add: new_folder_def split_defs)
  have span: "page_span [10, 20, 30 :: nat] 2 3 = [20, 30]"
    by (simp add: page_span_def)
  note one = C1_record_yields_its_page_span [OF h, of 1 "''x''" ?w, THEN conjunct1]
  have first: "split_ranges [10, 20, 30 :: nat] 1 [(2, 3, ''x'')] ?w
       = (None, ?w\<lparr>nodes := fmupd [''out'', ''x.pdf''] (Document [20, 30]) (nodes ?w),
                    ok_lines := [(''x.pdf'', 2, 3)]\<rparr>)"
    unfolding one name path sum.case opened span by (simp add: new_folder_def)
  note two = C1_record_yields_its_page_span [OF h, of 2 "''./x''" ?v, THEN conjunct1]
  have second: "split_ranges [10, 20, 30 :: nat] 2 [(2, 3, ''./x'')] ?v
       = (None,
          ?w\<lparr>nodes := fmupd [''out'', ''x_1.pdf''] (Document [20, 30])
                        (fmupd [''out'', ''x.pdf''] (Document [10]) (nodes ?w)),
              ok_lines := [(''x_1.pdf'', 2, 3)]\<rparr>)"
    unfolding two name path sum.case opened span by (simp add: new_folder_def)
  have found: "avoid_overwriting ?w (stem (ensure_pdf_suffix ''x'')) (ensure_pdf_suffix ''x'') 1
      = Inr ''x.pdf''"
    unfolding name by (rule path)
  with opened(1)
    C1_record_yields_its_page_span [OF h, of 1 "''x''" ?w "''x.pdf''" "[''out'', ''x.pdf'']"]
  have fresh: "fmlookup (nodes ?w) [''out'', ''x.pdf''] = None"
    by blast
  from h first second found opened(1) fresh show ?thesis by (intro conjI)
qed

text \<open>
  Claim C2 says that no file is written when some record fails a check. On a document of
  two pages and the table \<open>1,1,a / 5,5,b\<close> the run ends with the exception of the second
  record, and the file of the first record has been written.
\<close>

theorem C2_counterexample:
  "main [10 :: nat, 20]
     (\<lambda>enc. \<lparr>yielded = [[''1'', ''1'', ''a''], [''5'', ''5'', ''b'']], raised = None\<rparr>)
     new_folder
   = (Some (EndExceedsTotal 2 5 2),
      new_folder\<lparr>nodes := fmupd [''out'', ''a.pdf''] (Document [10]) (nodes new_folder),
                 ok_lines := [(''a.pdf'', 1, 1)]\<rparr>)"
  by (simp add: main_def csv_defs text_defs read_rows.simps(2) try_encodings.simps(2)
      split_ranges.simps(2) split_defs new_folder_def avoid_overwriting.simps Let_def
      numeral_2_eq_2)

text \<open>
  Claim C2, amended. When the records before some record have been processed without
  exception (each of them passes the checks and its output file is written) and that
  record fails a check, the run ends with the exception of that check, in the state
  reached after the records before it: each of them has added one document and one
  \<^verbatim>\<open>[OK]\<close> line, every folder and document that was there before the run is unchanged,
  and nothing is written for the failing record or for any record after it.
\<close>

theorem C2_abort_keeps_earlier_outputs:
  assumes "split_ranges pages i before w = (None, w')"
    and "sanity_checks (i + length before) (int (length pages)) start_page end_page = Some err"
  shows "split_ranges pages i (before @ (start_page, end_page, output_file) # after) w
           = (Some err, w')
         \<and> card (documents w') = card (documents w) + length before
         \<and> length (ok_lines w') = length (ok_lines w) + length before
         \<and> extends w w'"
proof -
  from assms(2)
  have "split_ranges pages (i + length before) ((start_page, end_page, output_file) # after) w'
      = (Some err, w')"
    by (rule split_ranges_fail)
  with assms(1)
  have "split_ranges pages i (before @ (start_page, end_page, output_file) # after) w
      = (Some err, w')"
    by (simp add: split_ranges_append)
  moreover from assms(1) have "card (documents w') = card (documents w) + length before"
    by (rule split_ranges_documents)
  moreover from assms(1) have "length (ok_lines w') = length (ok_lines w) + length before"
    by (simp add: split_ranges_count)
  moreover from assms(1) have "extends w w'"
    by (rule split_ranges_extends)
  ultimately show ?thesis by (intro conjI)
qed

text \<open>One record in bounds, then one that exceeds the two pages, then a third.\<close>

theorem C2_witness:
  "split_ranges [10 :: nat, 20] 1 [(1, 1, ''a'')] new_folder
       = (None, new_folder\<lparr>nodes := fmupd [''out'', ''a.pdf''] (Document [10])
                                       (nodes new_folder),
                            ok_lines := [(''a.pdf'', 1, 1)]\<rparr>)
   \<and> sanity_checks (1 + length [(1 :: int, 1 :: int, ''a'')]) (int (length [10 :: nat, 20])) 5 5
       = Some (EndExceedsTotal 2 5 2)
   \<and> split_ranges [10 :: nat, 20] 1 ([(1, 1, ''a'')] @ (5, 5, ''b'') # [(2, 2, ''c'')])
         new_folder
       = (Some (EndExceedsTotal 2 5 2),
          new_folder\<lparr>nodes := fmupd [''out'', ''a.pdf''] (Document [10]) (nodes new_folder),
                     ok_lines := [(''a.pdf'', 1, 1)]\<rparr>)"
proof -
  let ?w = "new_folder :: nat world"
  have h1: "split_ranges [10 :: nat, 20] 1 [(1, 1, ''a'')] ?w
       = (None, ?w\<lparr>nodes := fmupd [''out'', ''a.pdf''] (Document [10]) (nodes ?w),
                    ok_lines := [(''a.pdf'', 1, 1)]\<rparr>)"
    by (simp add: split_ranges.simps(2) new_folder_def text_defs split_defs
        avoid_overwriting.simps Let_def)
  have h2: "sanity_checks (1 + length [(1 :: int, 1 :: int, ''a'')]) (int (length [10 :: nat, 20])) 5 5
       = Some (EndExceedsTotal 2 5 2)"
    by (simp add: sanity_checks_def)
  from C2_abort_keeps_earlier_outputs [OF h1 h2, of "''b''" "[(2, 2, ''c'')]"] h1 h2
  show ?thesis by simp
qed

text \<open>
  Claim C3 says that the first row that is not blank is tested against the header
  criteria, so that it is skipped and yields no record when it meets one. In the first
  table below the first row is blank and the second has a third cell whose lowercase form
  contains \<open>filename\<close>; the parser reads the second row as data and returns its record.
  In the second table the header \<open>start,stop,filename\<close> follows a blank row; it is not
  skipped, and the parser fails on it.
\<close>

theorem C3_counterexample:
  "header_like (strip ''1'') (strip ''2'') (strip ''myfilename'')
   \<and> read_ranges_csv (\<lambda>enc. \<lparr>yielded = [[], [''1'', ''2'', ''myfilename'']], raised = None\<rparr>)
       = ([Utf8Sig], Inr [(1, 2, ''myfilename'')])
   \<and> header_like (strip ''start'') (strip ''stop'') (strip ''filename'')
   \<and> read_ranges_csv (\<lambda>enc. \<lparr>yielded = [[], [''start'', ''stop'', ''filename''],
          [''1'', ''2'', ''a'']], raised = None\<rparr>)
       = ([Utf8Sig], Inl (NotIntegers 2 ''start'' ''stop''))"
  by (simp add: csv_defs text_defs read_rows.simps(2) try_encodings.simps(2))

text \<open>
  Claim C3, amended. It is the physical first row of the file (row number 1) that is
  tested against the header criteria, on its stripped cells, when it is not blank and has
  at least three cells: it is skipped when the first cell's lowercase form contains
  \<open>start\<close>, or the second's contains \<open>stop\<close>, or the third's contains \<open>filename\<close>, or
  the three lowercase cells are \<open>start\<close>, \<open>stop\<close> and \<open>filename\<close> in some order. A first
  non-blank row that comes after blank rows is not tested: it is read as data, so it yields
  a record when its first two cells are integers and its third is not blank, and it is a
  fatal error when one of its first two cells is not an integer.
\<close>

theorem C3_header_is_first_row:
  "(\<not> blank_row r \<and> 3 \<le> length r
      \<and> header_like (strip (r ! 0)) (strip (r ! 1)) (strip (r ! 2))
     \<longrightarrow> read_rows 1 (r # rest) rows = read_rows 2 rest rows)
   \<and> (blanks \<noteq> [] \<and> list_all blank_row blanks \<and> \<not> blank_row r \<and> 3 \<le> length r
      \<and> py_int (strip (r ! 0)) = Some start_page \<and> py_int (strip (r ! 1)) = Some end_page
      \<and> strip (r ! 2) \<noteq> []
     \<longrightarrow> read_rows 1 (blanks @ r # rest) rows
          = read_rows (2 + length blanks) rest (rows @ [(start_page, end_page, strip (r ! 2))]))
   \<and> (blanks \<noteq> [] \<and> list_all blank_row blanks \<and> \<not> blank_row r \<and> 3 \<le> length r
      \<and> (py_int (strip (r ! 0)) = None \<or> py_int (strip (r ! 1)) = None)
     \<longrightarrow> read_rows 1 (blanks @ r # rest) rows
          = Inl (NotIntegers (1 + length blanks) (strip (r ! 0)) (strip (r ! 1))))"
proof (intro conjI impI)
  assume "\<not> blank_row r \<and> 3 \<le> length r
      \<and> header_like (strip (r ! 0)) (strip (r ! 1)) (strip (r ! 2))"
  then show "read_rows 1 (r # rest) rows = read_rows 2 rest rows"
    by (simp add: read_rows_header del: One_nat_def)
next
  assume a: "blanks \<noteq> [] \<and> list_all blank_row blanks \<and> \<not> blank_row r \<and> 3 \<le> length r
      \<and> py_int (strip (r ! 0)) = Some start_page \<and> py_int (strip (r ! 1)) = Some end_page
      \<and> strip (r ! 2) \<noteq> []"
  then have "\<not> (1 + length blanks = 1
      \<and> header_like (strip (r ! 0)) (strip (r ! 1)) (strip (r ! 2)))"
    by simp
  moreover have suc: "Suc (1 + length blanks) = 2 + length blanks"
    by simp
  ultimately have "read_rows (1 + length blanks) (r # rest) rows
      = read_rows (2 + length blanks) rest (rows @ [(start_page, end_page, strip (r ! 2))])"
    using a by (simp add: read_rows_data suc del: One_nat_def)
  with a show "read_rows 1 (blanks @ r # rest) rows
          = read_rows (2 + length blanks) rest (rows @ [(start_page, end_page, strip (r ! 2))])"
    by (simp add: read_rows_blanks del: One_nat_def)
next
  assume a: "blanks \<noteq> [] \<and> list_all blank_row blanks \<and> \<not> blank_row r \<and> 3 \<le> length r
      \<and> (py_int (strip (r ! 0)) = None \<or> py_int (strip (r ! 1)) = None)"
  then have "\<not> (1 + length blanks = 1
      \<and> header_like (strip (r ! 0)) (strip (r ! 1)) (strip (r ! 2)))"
    by simp
  with a have "read_rows (1 + length blanks) (r # rest) rows
      = Inl (NotIntegers (1 + length blanks) (strip (r ! 0)) (strip (r ! 1)))"
    by (auto simp add: read_rows_data simp del: One_nat_def split: option.splits)
  with a show "read_rows 1 (blanks @ r # rest) rows
          = Inl (NotIntegers (1 + length blanks) (strip (r ! 0)) (strip (r ! 1)))"
    by (simp add: read_rows_blanks del: One_nat_def)
qed

text \<open>
  A header in row 1 is skipped; after two blank rows a row whose third cell contains
  \<open>filename\<close> yields its record; after one blank row the row \<open>start,stop,filename\<close> is a
  fatal error.
\<close>

theorem C3_witness:
  "read_rows 1 ([''Start Page'', ''Stop Page'', ''File''] # [[''1'', ''5'', ''Intro'']]) []
     = read_rows 2 [[''1'', ''5'', ''Intro'']] []
   \<and> read_rows 1 ([[], ['' '', '''']] @ [''1'', ''2'', ''myfilename''] # [[''3'', ''4'', ''b'']]) []
     = read_rows 4 [[''3'', ''4'', ''b'']] [(1, 2, ''myfilename'')]
   \<and> read_rows 1 ([[]] @ [''start'', ''stop'', ''filename''] # [[''3'', ''4'', ''b'']]) []
     = Inl (NotIntegers 2 ''start'' ''stop'')"
proof -
  have b: "blank_row []" "blank_row ['' '', '''']"
    by (simp_all add: blank_row_def text_defs)
  have n: "\<not> blank_row [''Start Page'', ''Stop Page'', ''File'']"
     "\<not> blank_row [''1'', ''2'', ''myfilename'']"
     "\<not> blank_row [''start'', ''stop'', ''filename'']"
    by (simp_all add: blank_row_def text_defs)
  have h: "header_like (strip ''Start Page'') (strip ''Stop Page'') (strip ''File'')"
    by (simp add: header_like_def text_defs)
  have i: "py_int (strip ''1'') = Some 1" "py_int (strip ''2'') = Some 2"
      "py_int (strip ''start'') = None"
    by (simp_all add: text_defs)
  have s: "strip ''myfilename'' = ''myfilename''" "strip ''start'' = ''start''"
      "strip ''stop'' = ''stop''"
    by (simp_all add: text_defs)
  have first: "read_rows 1 ([''Start Page'', ''Stop Page'', ''File''] # [[''1'', ''5'', ''Intro'']]) []
      = read_rows 2 [[''1'', ''5'', ''Intro'']] []"
    using n h C3_header_is_first_row [of "[''Start Page'', ''Stop Page'', ''File'']"
       "[[''1'', ''5'', ''Intro'']]" "[]", THEN conjunct1]
    by (simp del: One_nat_def)
  have second: "read_rows 1 ([[], ['' '', '''']] @ [''1'', ''2'', ''myfilename''] # [[''3'', ''4'', ''b'']]) []
      = read_rows 4 [[''3'', ''4'', ''b'']] [(1, 2, ''myfilename'')]"
    using b n i s C3_header_is_first_row [of "[''1'', ''2'', ''myfilename'']"
       "[[''3'', ''4'', ''b'']]" "[]" "[[], ['' '', '''']]" 1 2, THEN conjunct2, THEN conjunct1]
    by (simp del: One_nat_def)
  have third: "read_rows 1 ([[]] @ [''start'', ''stop'', ''filename''] # [[''3'', ''4'', ''b'']]) []
      = Inl (NotIntegers 2 ''start'' ''stop'')"
    using b n i s C3_header_is_first_row [of "[''start'', ''stop'', ''filename'']"
       "[[''3'', ''4'', ''b'']]" "[]" "[[]]" 1 2, THEN conjunct2, THEN conjunct2]
    by (simp del: One_nat_def)
  from first second third show ?thesis
    by (intro conjI)
qed

text \<open>
  Claim C4 says that a record with \<open>start_page = end_page = total_pages\<close> passes for every
  source document. For a document without pages that record is \<open>0, 0\<close>, and the first
  check rejects it.
\<close>

theorem C4_counterexample: "sanity_checks 1 0 0 0 = Some (PagesBelowOne 1 0 0)"
  by (simp add: sanity_checks_def)

text \<open>
  Claim C4, amended. For a source document with at least one page the record
  \<open>start_page = end_page = total_pages\<close> passes; for every document a record with
  \<open>end_page = total_pages + 1\<close> fails and a record with \<open>start_page = 0\<close> fails. A record
  passes exactly when \<open>start_page \<ge> 1\<close> and \<open>end_page \<ge> 1\<close>, \<open>end_page \<ge> start_page\<close> and
  \<open>end_page \<le> total_pages\<close>, and the exception raised is that of the first of these three
  checks that fails.
\<close>

theorem C4_checks_in_order:
  "(1 \<le> total_pages \<longrightarrow> sanity_checks i total_pages total_pages total_pages = None)
   \<and> sanity_checks i total_pages start_page (total_pages + 1) \<noteq> None
   \<and> sanity_checks i total_pages 0 end_page \<noteq> None
   \<and> (sanity_checks i total_pages s e = None \<longleftrightarrow> 1 \<le> s \<and> 1 \<le> e \<and> s \<le> e \<and> e \<le> total_pages)
   \<and> (s < 1 \<or> e < 1 \<longrightarrow> sanity_checks i total_pages s e = Some (PagesBelowOne i s e))
   \<and> (1 \<le> s \<and> 1 \<le> e \<and> e < s \<longrightarrow> sanity_checks i total_pages s e = Some (EndBeforeStart i s e))
   \<and> (1 \<le> s \<and> s \<le> e \<and> total_pages < e
        \<longrightarrow> sanity_checks i total_pages s e = Some (EndExceedsTotal i e total_pages))"
  by (auto simp: sanity_checks_def)

text \<open>A document of twenty pages: the last page alone, and one failure of each check.\<close>

theorem C4_witness:
  "sanity_checks 1 20 20 20 = None
   \<and> sanity_checks 1 20 3 21 = Some (EndExceedsTotal 1 21 20)
   \<and> sanity_checks 1 20 0 5 = Some (PagesBelowOne 1 0 5)
   \<and> sanity_checks 1 20 7 4 = Some (EndBeforeStart 1 7 4)"
  using C4_checks_in_order [of 20 1 3 5 3 21] C4_checks_in_order [of 20 1 3 5 0 5]
    C4_checks_in_order [of 20 1 3 5 7 4]
  by simp

text \<open>
  Claim C5 says that the files of a second run get names with the suffix \<open>_1\<close>. With the
  table \<open>1,1,a / 1,1,a\<close> the first run into the new folder writes \<open>a.pdf\<close> and
  \<open>a_1.pdf\<close>, and the second run writes \<open>a_2.pdf\<close> and \<open>a_3.pdf\<close>.
\<close>

theorem C5_counterexample:
  "split_ranges [10 :: nat] 1 [(1, 1, ''a''), (1, 1, ''a'')] new_folder
     = (None,
        new_folder\<lparr>nodes := fmupd [''out'', ''a_1.pdf''] (Document [10])
                      (fmupd [''out'', ''a.pdf''] (Document [10]) (nodes new_folder)),
                   ok_lines := [(''a.pdf'', 1, 1), (''a_1.pdf'', 1, 1)]\<rparr>)
   \<and> split_ranges [10 :: nat] 1 [(1, 1, ''a''), (1, 1, ''a'')]
       (new_folder\<lparr>nodes := fmupd [''out'', ''a_1.pdf''] (Document [10])
                      (fmupd [''out'', ''a.pdf''] (Document [10]) (nodes new_folder))\<rparr>)
     = (None,
        new_folder\<lparr>nodes := fmupd [''out'', ''a_3.pdf''] (Document [10])
                      (fmupd [''out'', ''a_2.pdf''] (Document [10])
                        (fmupd [''out'', ''a_1.pdf''] (Document [10])
                          (fmupd [''out'', ''a.pdf''] (Document [10]) (nodes new_folder)))),
                   ok_lines := [(''a_2.pdf'', 1, 1), (''a_3.pdf'', 1, 1)]\<rparr>)"
  by (simp add: split_ranges.simps(2) new_folder_def text_defs split_defs
      avoid_overwriting.simps show_nat.simps Let_def)

text \<open>
  Claim C5, amended. For every record whose name, with its extension, leads to a path
  that exists, the loop tries the stem of that name followed by \<open>_n.pdf\<close> for \<open>n\<close> = 1,
  2, ... in increasing order. It stops at the first \<open>n\<close> for which \<^verbatim>\<open>exists()\<close> raises,
  and the run ends with that exception, or at the first \<open>n\<close> whose path does not exist,
  and that path is the one written. Consequently, when a run has ended without exception,
  a second run on the same records into the same folder overwrites no folder or document
  of the first run, and when the second run ends without exception too, each of its files
  gets a suffixed name, the stem of its record's name followed by \<open>_n.pdf\<close> for some
  \<open>n \<ge> 1\<close> (which need not be 1).
\<close>

theorem C5_first_free_suffix:
  "(path_exists w (ensure_pdf_suffix output_file) = Inr True
     \<longrightarrow> (\<exists>n\<ge>1. (\<forall>m. 1 \<le> m \<and> m < n
                    \<longrightarrow> path_exists w (suffixed (stem (ensure_pdf_suffix output_file)) m)
                          = Inr True)
            \<and> ((\<exists>e. path_exists w (suffixed (stem (ensure_pdf_suffix output_file)) n) = Inl e
                    \<and> avoid_overwriting w (stem (ensure_pdf_suffix output_file))
                          (ensure_pdf_suffix output_file) 1 = Inl e)
               \<or> (path_exists w (suffixed (stem (ensure_pdf_suffix output_file)) n) = Inr False
                    \<and> avoid_overwriting w (stem (ensure_pdf_suffix output_file))
                          (ensure_pdf_suffix output_file) 1
                        = Inr (suffixed (stem (ensure_pdf_suffix output_file)) n)))))
   \<and> (split_ranges pages 1 ranges w = (None, first)
      \<and> split_ranges pages 1 ranges (first\<lparr>ok_lines := []\<rparr>) = (res, second)
     \<longrightarrow> (\<forall>p d. fmlookup (nodes first) p = Some d \<longrightarrow> fmlookup (nodes second) p = Some d)
        \<and> (res = None \<longrightarrow> list_all2 suffix_named ranges (ok_lines second)))"
proof (intro conjI impI)
  let ?n = "ensure_pdf_suffix output_file"
  assume "path_exists w ?n = Inr True"
  then have "avoid_overwriting w (stem ?n) ?n 1
      = avoid_overwriting w (stem ?n) (suffixed (stem ?n) 1) (Suc 1)"
    by (rule avoid_overwriting_taken)
  with avoid_overwriting_trace [of 1 w "stem ?n"]
  show "\<exists>n\<ge>1. (\<forall>m. 1 \<le> m \<and> m < n \<longrightarrow> path_exists w (suffixed (stem ?n) m) = Inr True)
            \<and> ((\<exists>e. path_exists w (suffixed (stem ?n) n) = Inl e
                    \<and> avoid_overwriting w (stem ?n) ?n 1 = Inl e)
               \<or> (path_exists w (suffixed (stem ?n) n) = Inr False
                    \<and> avoid_overwriting w (stem ?n) ?n 1 = Inr (suffixed (stem ?n) n)))"
    by simp
next
  assume runs: "split_ranges pages 1 ranges w = (None, first)
      \<and> split_ranges pages 1 ranges (first\<lparr>ok_lines := []\<rparr>) = (res, second)"
  then have "extends (first\<lparr>ok_lines := []\<rparr>) second"
    by (blast intro: split_ranges_extends)
  then show "\<forall>p d. fmlookup (nodes first) p = Some d \<longrightarrow> fmlookup (nodes second) p = Some d"
    by (simp add: extends_def)
next
  assume runs: "split_ranges pages 1 ranges w = (None, first)
      \<and> split_ranges pages 1 ranges (first\<lparr>ok_lines := []\<rparr>) = (res, second)"
    and "res = None"
  then have second: "split_ranges pages 1 ranges (first\<lparr>ok_lines := []\<rparr>) = (None, second)"
    by simp
  have "\<forall>(s, e, name) \<in> set ranges.
      path_exists (first\<lparr>ok_lines := []\<rparr>) (ensure_pdf_suffix name) = Inr True"
  proof (clarify)
    fix s e name assume "(s, e, name) \<in> set ranges"
    with runs have "path_exists first (ensure_pdf_suffix name) = Inr True"
      by (blast intro: split_ranges_names_exist)
    then show "path_exists (first\<lparr>ok_lines := []\<rparr>) (ensure_pdf_suffix name) = Inr True"
      by (simp add: path_exists_ok_lines)
  qed
  with second obtain new where "ok_lines second = ok_lines (first\<lparr>ok_lines := []\<rparr>) @ new"
      "list_all2 suffix_named ranges new"
    using split_ranges_second_run by blast
  then show "list_all2 suffix_named ranges (ok_lines second)" by simp
qed

text \<open>
  The name \<open>./a\<close> when \<open>a.pdf\<close> is in the folder, and two runs of the table \<open>1,1,a\<close> into
  the new folder.
\<close>

theorem C5_witness:
  "path_exists (new_folder\<lparr>nodes := fmupd [''out'', ''a.pdf''] (Document [10 :: nat])
                                (nodes new_folder)\<rparr>) (ensure_pdf_suffix ''./a'') = Inr True
   \<and> avoid_overwriting (new_folder\<lparr>nodes := fmupd [''out'', ''a.pdf''] (Document [10 :: nat])
                                (nodes new_folder)\<rparr>) (stem (ensure_pdf_suffix ''./a''))
         (ensure_pdf_suffix ''./a'') 1 = Inr ''a_1.pdf''
   \<and> split_ranges [10 :: nat] 1 [(1, 1, ''a'')] new_folder
       = (None, new_folder\<lparr>nodes := fmupd [''out'', ''a.pdf''] (Document [10])
                                       (nodes new_folder),
                            ok_lines := [(''a.pdf'', 1, 1)]\<rparr>)
   \<and> split_ranges [10 :: nat] 1 [(1, 1, ''a'')]
         (new_folder\<lparr>nodes := fmupd [''out'', ''a.pdf''] (Document [10]) (nodes new_folder),
                     ok_lines := [(''a.pdf'', 1, 1)]\<rparr>\<lparr>ok_lines := []\<rparr>)
       = (None, new_folder\<lparr>nodes := fmupd [''out'', ''a_1.pdf''] (Document [10])
                              (fmupd [''out'', ''a.pdf''] (Document [10]) (nodes new_folder)),
                            ok_lines := [(''a_1.pdf'', 1, 1)]\<rparr>)
   \<and> list_all2 suffix_named [(1, 1, ''a'')] [(''a_1.pdf'', 1, 1)]"
proof -
  let ?w = "new_folder :: nat world"
  let ?v = "?w\<lparr>nodes := fmupd [''out'', ''a.pdf''] (Document [10]) (nodes ?w)\<rparr>"
  let ?first = "?w\<lparr>nodes := fmupd [''out'', ''a.pdf''] (Document [10]) (nodes ?w),
                   ok_lines := [(''a.pdf'', 1, 1)]\<rparr>"
  let ?second = "?w\<lparr>nodes := fmupd [''out'', ''a_1.pdf''] (Document [10])
                              (fmupd [''out'', ''a.pdf''] (Document [10]) (nodes ?w)),
                    ok_lines := [(''a_1.pdf'', 1, 1)]\<rparr>"
  have name: "ensure_pdf_suffix ''./a'' = ''./a.pdf''" "stem ''./a.pdf'' = ''a''"
      "suffixed ''a'' 1 = ''a_1.pdf''"
    by (simp_all add: text_defs split_defs show_nat.simps)
  have h1: "path_exists ?v (ensure_pdf_suffix ''./a'') = Inr True"
    unfolding name by (simp add: new_folder_def split_defs)
  have free: "path_exists ?v (suffixed ''a'' 1) = Inr False"
    unfolding name by (simp add: new_folder_def split_defs)
  note one = C5_first_free_suffix [of ?v "''./a''", THEN conjunct1]
  note two = C5_first_free_suffix [of ?w _ "[10 :: nat]" "[(1, 1, ''a'')]" ?first None ?second,
      THEN conjunct2]
  from one h1 obtain n where n: "1 \<le> n"
      "\<forall>m. 1 \<le> m \<and> m < n \<longrightarrow> path_exists ?v (suffixed ''a'' m) = Inr True"
      "(\<exists>e. path_exists ?v (suffixed ''a'' n) = Inl e
            \<and> avoid_overwriting ?v ''a'' ''./a.pdf'' 1 = Inl e)
       \<or> (path_exists ?v (suffixed ''a'' n) = Inr False
            \<and> avoid_overwriting ?v ''a'' ''./a.pdf'' 1 = Inr (suffixed ''a'' n))"
    unfolding name(1,2) by blast
  from n(1, 2) free have n1: "n = 1"
    by (metis Inr_inject le_neq_implies_less order_refl)
  from n(3) free have "avoid_overwriting ?v ''a'' ''./a.pdf'' 1 = Inr (suffixed ''a'' 1)"
    unfolding n1 by (auto simp del: One_nat_def)
  then have h2: "avoid_overwriting ?v (stem (ensure_pdf_suffix ''./a''))
         (ensure_pdf_suffix ''./a'') 1 = Inr ''a_1.pdf''"
    unfolding name .
  have r1: "split_ranges [10 :: nat] 1 [(1, 1, ''a'')] ?w = (None, ?first)"
    by (simp add: split_ranges.simps(2) new_folder_def text_defs split_defs
        avoid_overwriting.simps Let_def)
  have r2: "split_ranges [10 :: nat] 1 [(1, 1, ''a'')] (?first\<lparr>ok_lines := []\<rparr>)
      = (None, ?second)"
    by (simp add: split_ranges.simps(2) new_folder_def text_defs split_defs
        avoid_overwriting.simps show_nat.simps Let_def)
  from two r1 r2 have "list_all2 suffix_named [(1, 1, ''a'')] (ok_lines ?second)"
    by blast
  then have named: "list_all2 suffix_named [(1, 1, ''a'')] [(''a_1.pdf'', 1, 1)]"
    by simp
  from h1 h2 r1 r2 named show ?thesis by (intro conjI)
qed

text \<open>
  Claim C6 says that a run on a valid range table produces as many files as the table
  has rows that are neither blank nor the header row. In the table of the first example
  the first row is blank and the second row is \<open>1,2,myfilename\<close>. That row is the first
  row that is not blank and its third cell contains \<open>filename\<close>, so it is the header row
  of the specification, and no row of the table is left to count; the parser reads it as
  data, and the run on a document of two pages writes one file. In the second example the
  table is the one row \<open>1,1,sub/a\<close>, which is in bounds; the run into the new folder ends
  with \<^verbatim>\<open>FileNotFoundError\<close> and writes no file.
\<close>

theorem C6_counterexample:
  "spec_data_rows [[], [''1'', ''2'', ''myfilename'']] = []
   \<and> main [10 :: nat, 20]
         (\<lambda>enc. \<lparr>yielded = [[], [''1'', ''2'', ''myfilename'']], raised = None\<rparr>) new_folder
       = (None,
          new_folder\<lparr>nodes := fmupd [''out'', ''myfilename.pdf''] (Document [10, 20])
                                  (nodes new_folder),
                     ok_lines := [(''myfilename.pdf'', 1, 2)]\<rparr>)
   \<and> spec_data_rows [[''1'', ''1'', ''sub/a'']] = [[''1'', ''1'', ''sub/a'']]
   \<and> in_bounds (int (length [10 :: nat, 20])) 1 1
   \<and> main [10 :: nat, 20]
         (\<lambda>enc. \<lparr>yielded = [[''1'', ''1'', ''sub/a'']], raised = None\<rparr>) new_folder
       = (Some FileNotFoundError, new_folder)"
proof -
  have "spec_data_rows [[], [''1'', ''2'', ''myfilename'']] = []"
    by (simp add: spec_data_rows_def spec_header_def cell_def blank_row_def text_defs)
  moreover have "main [10 :: nat, 20]
         (\<lambda>enc. \<lparr>yielded = [[], [''1'', ''2'', ''myfilename'']], raised = None\<rparr>) new_folder
       = (None,
          new_folder\<lparr>nodes := fmupd [''out'', ''myfilename.pdf''] (Document [10, 20])
                                  (nodes new_folder),
                     ok_lines := [(''myfilename.pdf'', 1, 2)]\<rparr>)"
    by (simp add: main_def csv_defs text_defs read_rows.simps(2) try_encodings.simps(2)
        split_ranges.simps(2) split_defs new_folder_def avoid_overwriting.simps Let_def
        upto.simps)
  moreover have "spec_data_rows [[''1'', ''1'', ''sub/a'']] = [[''1'', ''1'', ''sub/a'']]"
    by (auto simp: spec_data_rows_def spec_header_def cell_def blank_row_def text_defs)
  moreover have "in_bounds (int (length [10 :: nat, 20])) 1 1"
    by (simp add: in_bounds_def)
  moreover have "main [10 :: nat, 20]
         (\<lambda>enc. \<lparr>yielded = [[''1'', ''1'', ''sub/a'']], raised = None\<rparr>) new_folder
       = (Some FileNotFoundError, new_folder)"
    by (simp add: main_def csv_defs text_defs read_rows.simps(2) try_encodings.simps(2)
        split_ranges.simps(2) split_defs new_folder_def avoid_overwriting.simps Let_def)
  ultimately show ?thesis by (intro conjI)
qed

text \<open>
  Claim C6, amended. When the parser returns the records of a range table and the run
  ends without exception (every record passes the checks and every output file is
  written), the number of records is the number of rows that are neither blank nor the
  header row, where the header row is row 1 of the file when it has at least three cells
  and meets a header criterion; the run adds that many documents and prints that many
  \<^verbatim>\<open>[OK]\<close> lines, one for each record. The rows are those read under the encoding that
  was opened last.
\<close>

theorem C6_one_file_per_data_row:
  assumes "read_ranges_csv f = (opened, Inr ranges)" and "main pages f w = (None, w')"
  shows "length ranges = length (data_rows 1 (yielded (f (last opened))))
         \<and> card (documents w')
             = card (documents w) + length (data_rows 1 (yielded (f (last opened))))
         \<and> length (ok_lines w')
             = length (ok_lines w) + length (data_rows 1 (yielded (f (last opened))))"
proof -
  from read_ranges_csv_Inr [OF assms(1)]
  have "read_rows 1 (yielded (f (last opened))) [] = Inr ranges"
    by blast
  then have n: "length ranges = length (data_rows 1 (yielded (f (last opened))))"
    using read_rows_count by fastforce
  from assms have m: "split_ranges pages 1 ranges w = (None, w')"
    by (simp add: main_def)
  from m have "card (documents w') = card (documents w) + length ranges"
    by (rule split_ranges_documents)
  moreover from m have "length (ok_lines w') = length (ok_lines w) + length ranges"
    by (simp add: split_ranges_count)
  ultimately show ?thesis unfolding n [symmetric] by simp
qed

text \<open>A header, a blank row and two records, on a document of three pages.\<close>

theorem C6_witness:
  "read_ranges_csv (\<lambda>enc. \<lparr>yielded = [[''start'', ''stop'', ''filename''], [],
        [''1'', ''1'', ''Intro''], [''2'', ''3'', ''Appendix'']], raised = None\<rparr>)
      = ([Utf8Sig], Inr [(1, 1, ''Intro''), (2, 3, ''Appendix'')])
   \<and> main [10 :: nat, 20, 30]
        (\<lambda>enc. \<lparr>yielded = [[''start'', ''stop'', ''filename''], [],
           [''1'', ''1'', ''Intro''], [''2'', ''3'', ''Appendix'']], raised = None\<rparr>)
        new_folder
      = (None,
         new_folder\<lparr>nodes := fmupd [''out'', ''Appendix.pdf''] (Document [20, 30])
                       (fmupd [''out'', ''Intro.pdf''] (Document [10]) (nodes new_folder)),
                    ok_lines := [(''Intro.pdf'', 1, 1), (''Appendix.pdf'', 2, 3)]\<rparr>)
   \<and> length (data_rows 1 [[''start'', ''stop'', ''filename''], [],
        [''1'', ''1'', ''Intro''], [''2'', ''3'', ''Appendix'']]) = 2
   \<and> card (documents
        (new_folder\<lparr>nodes := fmupd [''out'', ''Appendix.pdf''] (Document [20 :: nat, 30])
                       (fmupd [''out'', ''Intro.pdf''] (Document [10]) (nodes new_folder)),
                    ok_lines := [(''Intro.pdf'', 1, 1), (''Appendix.pdf'', 2, 3)]\<rparr>)) = 2"
proof -
  let ?f = "\<lambda>enc :: encoding. \<lparr>yielded = [[''start'', ''stop'', ''filename''], [],
        [''1'', ''1'', ''Intro''], [''2'', ''3'', ''Appendix'']], raised = None\<rparr>"
  let ?w = "new_folder :: nat world"
  let ?w' = "?w\<lparr>nodes := fmupd [''out'', ''Appendix.pdf''] (Document [20, 30])
                       (fmupd [''out'', ''Intro.pdf''] (Document [10]) (nodes ?w)),
                ok_lines := [(''Intro.pdf'', 1, 1), (''Appendix.pdf'', 2, 3)]\<rparr>"
  have h1: "read_ranges_csv ?f = ([Utf8Sig], Inr [(1, 1, ''Intro''), (2, 3, ''Appendix'')])"
    by (simp add: csv_defs text_defs read_rows.simps(2) try_encodings.simps(2))
  have run: "split_ranges [10 :: nat, 20, 30] 1 [(1, 1, ''Intro''), (2, 3, ''Appendix'')] ?w
      = (None, ?w')"
    by (simp add: split_ranges.simps(2) split_defs text_defs new_folder_def
        avoid_overwriting.simps Let_def upto.simps)
  from h1 run have h2: "main [10 :: nat, 20, 30] ?f ?w = (None, ?w')"
    by (simp add: main_def)
  have h3: "length (data_rows 1 [[''start'', ''stop'', ''filename''], [],
        [''1'', ''1'', ''Intro''], [''2'', ''3'', ''Appendix'']]) = 2"
    by (simp add: data_rows_def header_row_def blank_row_def header_like_def text_defs)
  have empty: "documents ?w = {}"
    by (auto simp: documents_def new_folder_def split: if_splits)
  from C6_one_file_per_data_row [OF h1 h2] h3 empty have "card (documents ?w') = 2"
    by simp
  with h1 h2 h3 show ?thesis by (intro conjI)
qed

text \<open>
  Claim C7 says that UTF-8 is tried first and UTF-8 with marker second. The file with the
  one line \<open>1,2,a\<close> reads the same under every encoding and is opened with UTF-8 with
  marker only. The file with the line \<open>1,2,caf\<close> followed by the byte E9 (the letter e
  with acute accent in Windows-1252) does not decode as UTF-8; it is opened with UTF-8 with
  marker, then UTF-8, then Windows-1252.
\<close>

theorem C7_counterexample:
  "read_ranges_csv (\<lambda>enc. \<lparr>yielded = [[''1'', ''2'', ''a'']], raised = None\<rparr>)
     = ([Utf8Sig], Inr [(1, 2, ''a'')])
   \<and> read_ranges_csv (\<lambda>enc. if enc = Cp1252
          then \<lparr>yielded = [[''1'', ''2'', ''caf'' @ [CHR 0xE9]]], raised = None\<rparr>
          else \<lparr>yielded = [],
                 raised = Some (UnicodeDecodeError ''invalid continuation byte'')\<rparr>)
     = ([Utf8Sig, Utf8, Cp1252], Inr [(1, 2, ''caf'' @ [CHR 0xE9])])"
  by (simp add: csv_defs text_defs read_rows.simps(2) try_encodings.simps(2))

text \<open>
  Claim C7, amended. The parser tries the encodings in the order UTF-8 with marker, then
  UTF-8, then Windows-1252. It uses the first under which reading does not end in a
  decoding failure, and returns what reading under it gives; if reading ends in a decoding
  failure under all three, the result is that of Windows-1252, which is the last decoding
  failure.
\<close>

theorem C7_encodings_in_order:
  "read_ranges_csv f =
     (if \<not> decode_failed (f Utf8Sig) then ([Utf8Sig], read_with (f Utf8Sig))
      else if \<not> decode_failed (f Utf8) then ([Utf8Sig, Utf8], read_with (f Utf8))
      else ([Utf8Sig, Utf8, Cp1252], read_with (f Cp1252)))"
  by (rule read_ranges_csv_cases)

text \<open>
  Claim C8 says that a first row that meets a header criterion is skipped even when it
  has fewer than three cells. The row \<open>start,stop\<close> in row 1 meets the first criterion,
  and the parser fails with the column-count error for row 1.
\<close>

theorem C8_counterexample:
  "contains (lower (strip ''start'')) ''start''
   \<and> read_ranges_csv (\<lambda>enc. \<lparr>yielded = [[''start'', ''stop'']], raised = None\<rparr>)
       = ([Utf8Sig], Inl (ColumnCount 1 2 [''start'', ''stop'']))"
  by (simp add: csv_defs text_defs read_rows.simps(2) try_encodings.simps(2))

text \<open>
  Claim C8, amended. The requirement of at least three cells applies to every row that is
  not blank, the first row included: the cells are counted before the header test. When
  the rows before it are read without error, a non-blank row with fewer than three cells
  makes the parser fail with an error that names the row's number, its number of cells and
  its contents; this error is the result of \<^verbatim>\<open>read_ranges_csv\<close>.
\<close>

theorem C8_short_row_is_fatal:
  assumes "read_rows 1 before [] = Inr rows" and "\<not> blank_row r" and "length r < 3"
  shows "read_rows 1 (before @ r # rest) []
           = Inl (ColumnCount (1 + length before) (length r) r)
         \<and> (yielded (f Utf8Sig) = before @ r # rest
            \<longrightarrow> read_ranges_csv f
                  = ([Utf8Sig], Inl (ColumnCount (1 + length before) (length r) r)))"
proof -
  from assms have row: "read_rows 1 (before @ r # rest) []
      = Inl (ColumnCount (1 + length before) (length r) r)"
    by (simp add: read_rows_append read_rows_short del: One_nat_def)
  moreover have "read_ranges_csv f = ([Utf8Sig], Inl (ColumnCount (1 + length before) (length r) r))"
    if "yielded (f Utf8Sig) = before @ r # rest"
  proof -
    from that row have "read_rows 1 (yielded (f Utf8Sig)) []
        = Inl (ColumnCount (1 + length before) (length r) r)"
      by simp
    then have "read_with (f Utf8Sig) = Inl (ColumnCount (1 + length before) (length r) r)
        \<and> \<not> decode_failed (f Utf8Sig)"
      by (rule read_with_row_error)
    then show ?thesis by (simp add: read_ranges_csv_cases)
  qed
  ultimately show ?thesis by blast
qed

text \<open>The row \<open>start,stop\<close> as the first row of a file.\<close>

theorem C8_witness:
  "read_rows 1 [] [] = Inr []
   \<and> \<not> blank_row [''start'', ''stop'']
   \<and> read_ranges_csv (\<lambda>enc. \<lparr>yielded = [] @ [''start'', ''stop''] # [[''1'', ''2'', ''a'']], raised = None\<rparr>)
       = ([Utf8Sig], Inl (ColumnCount 1 2 [''start'', ''stop'']))"
proof -
  have h1: "read_rows 1 [] [] = Inr []" by simp
  have h2: "\<not> blank_row [''start'', ''stop'']" by (simp add: blank_row_def text_defs)
  have h3: "length [''start'', ''stop''] < 3" by simp
  from C8_short_row_is_fatal [OF h1 h2 h3, of "[[''1'', ''2'', ''a'']]"
      "\<lambda>enc. \<lparr>yielded = [] @ [''start'', ''stop''] # [[''1'', ''2'', ''a'']], raised = None\<rparr>"]
  have "read_ranges_csv (\<lambda>enc. \<lparr>yielded = [] @ [''start'', ''stop''] # [[''1'', ''2'', ''a'']], raised = None\<rparr>)
       = ([Utf8Sig], Inl (ColumnCount 1 2 [''start'', ''stop'']))"
    by simp
  with h1 h2 show ?thesis by (intro conjI)
qed

text \<open>
  Claim C9. The name under which a record is written is its trimmed output name when the
  lowercase form of that name ends with \<open>.pdf\<close>, and the trimmed name followed by
  \<open>.pdf\<close> otherwise; in both cases its lowercase form ends with \<open>.pdf\<close>, and so does the
  lowercase form of the name that the loop of lines 164 to 168 hands to \<^verbatim>\<open>open\<close>, also
  when the name had to be moved away from an existing path. The lowercase form of a string
  ends with \<open>.pdf\<close> exactly when the string ends with a dot and the letters p, d, f, each
  in either case. The trimmed name is the name without the white space at its two ends:
  the name is the trimmed name between two runs of white space, and the trimmed name, when
  it is not empty, neither starts nor ends with white space; white space is TAB, LF, VT,
  FF, CR, U+001C to U+001F, SPACE, U+0085 and U+00A0.
\<close>

theorem C9_name_ends_with_extension:
  "ensure_pdf_suffix output_file
     = (if endswith (lower (strip output_file)) ''.pdf'' then strip output_file
        else strip output_file @ ''.pdf'')
   \<and> endswith (lower (ensure_pdf_suffix output_file)) ''.pdf''
   \<and> (avoid_overwriting w (stem (ensure_pdf_suffix output_file))
           (ensure_pdf_suffix output_file) 1 = Inr out_path
        \<longrightarrow> endswith (lower out_path) ''.pdf'')
   \<and> (endswith (lower s) ''.pdf'' \<longleftrightarrow>
        (\<exists>pre a b c. s = pre @ [CHR ''.'', a, b, c]
           \<and> a \<in> {CHR ''p'', CHR ''P''} \<and> b \<in> {CHR ''d'', CHR ''D''}
           \<and> c \<in> {CHR ''f'', CHR ''F''}))
   \<and> (\<exists>before after. output_file = before @ strip output_file @ after
          \<and> list_all isspace before \<and> list_all isspace after)
   \<and> (strip output_file \<noteq> []
        \<longrightarrow> \<not> isspace (hd (strip output_file)) \<and> \<not> isspace (last (strip output_file)))
   \<and> (isspace c \<longleftrightarrow>
        c \<in> {CHR 0x09, CHR 0x0A, CHR 0x0B, CHR 0x0C, CHR 0x0D, CHR 0x1C, CHR 0x1D, CHR 0x1E,
             CHR 0x1F, CHR 0x20, CHR 0x85, CHR 0xA0})"
proof (intro conjI impI)
  show "ensure_pdf_suffix output_file
     = (if endswith (lower (strip output_file)) ''.pdf'' then strip output_file
        else strip output_file @ ''.pdf'')"
    by (simp add: ensure_pdf_suffix_def Let_def)
next
  show "endswith (lower (ensure_pdf_suffix output_file)) ''.pdf''"
    by (rule ensure_pdf_suffix_ends)
next
  assume "avoid_overwriting w (stem (ensure_pdf_suffix output_file))
           (ensure_pdf_suffix output_file) 1 = Inr out_path"
  then show "endswith (lower out_path) ''.pdf''"
    by (rule avoid_overwriting_ends)
next
  show "endswith (lower s) ''.pdf'' \<longleftrightarrow>
        (\<exists>pre a b c. s = pre @ [CHR ''.'', a, b, c]
           \<and> a \<in> {CHR ''p'', CHR ''P''} \<and> b \<in> {CHR ''d'', CHR ''D''}
           \<and> c \<in> {CHR ''f'', CHR ''F''})"
    by (rule endswith_lower_pdf)
next
  show "\<exists>before after. output_file = before @ strip output_file @ after
          \<and> list_all isspace before \<and> list_all isspace after"
    by (rule strip_parts)
next
  assume "strip output_file \<noteq> []"
  then show "\<not> isspace (hd (strip output_file))" "\<not> isspace (last (strip output_file))"
    using strip_ends by blast+
next
  show "isspace c \<longleftrightarrow>
        c \<in> {CHR 0x09, CHR 0x0A, CHR 0x0B, CHR 0x0C, CHR 0x0D, CHR 0x1C, CHR 0x1D, CHR 0x1E,
             CHR 0x1F, CHR 0x20, CHR 0x85, CHR 0xA0}"
    by (rule isspace_chars)
qed

text \<open>
  The name \<open>Intro\<close> between two spaces gets the extension; the name \<open>a.PDF\<close> between a
  TAB and a line feed, and the name \<open>a.pdf\<close> followed by a space, are trimmed and kept
  as they are. When \<open>Intro.pdf\<close> is in the folder, the name handed to \<^verbatim>\<open>open\<close> is
  \<open>Intro_1.pdf\<close>.
\<close>

theorem C9_witness:
  "ensure_pdf_suffix '' Intro '' = ''Intro.pdf''
   \<and> ensure_pdf_suffix (CHR 0x09 # ''a.PDF'' @ [CHR 0x0A]) = ''a.PDF''
   \<and> ensure_pdf_suffix ''a.pdf '' = ''a.pdf''
   \<and> strip '' Intro '' = ''Intro''
   \<and> \<not> isspace (hd (strip '' Intro '')) \<and> \<not> isspace (last (strip '' Intro ''))
   \<and> avoid_overwriting
         (new_folder\<lparr>nodes := fmupd [''out'', ''Intro.pdf''] (Document [10 :: nat])
                                 (nodes new_folder)\<rparr>)
         (stem (ensure_pdf_suffix '' Intro '')) (ensure_pdf_suffix '' Intro '') 1
       = Inr ''Intro_1.pdf''
   \<and> endswith (lower ''Intro_1.pdf'') ''.pdf''"
proof -
  let ?v = "(new_folder :: nat world)\<lparr>nodes := fmupd [''out'', ''Intro.pdf''] (Document [10])
                                 (nodes new_folder)\<rparr>"
  have trimmed: "strip '' Intro '' = ''Intro''"
      "strip (CHR 0x09 # ''a.PDF'' @ [CHR 0x0A]) = ''a.PDF''"
      "strip ''a.pdf '' = ''a.pdf''"
    by (simp_all add: strip_def isspace_def)
  have ends: "\<not> endswith (lower ''Intro'') ''.pdf''" "endswith (lower ''a.PDF'') ''.pdf''"
      "endswith (lower ''a.pdf'') ''.pdf''"
    by (simp_all add: lower_def endswith_def)
  note name = C9_name_ends_with_extension [THEN conjunct1]
  have n1: "ensure_pdf_suffix '' Intro '' = ''Intro.pdf''"
    unfolding name [of "'' Intro ''"] trimmed using ends by simp
  have n2: "ensure_pdf_suffix (CHR 0x09 # ''a.PDF'' @ [CHR 0x0A]) = ''a.PDF''"
    unfolding name [of "CHR 0x09 # ''a.PDF'' @ [CHR 0x0A]"] trimmed using ends by simp
  have n3: "ensure_pdf_suffix ''a.pdf '' = ''a.pdf''"
    unfolding name [of "''a.pdf ''"] trimmed using ends by simp
  have "strip '' Intro '' \<noteq> []"
    by (simp add: trimmed)
  with C9_name_ends_with_extension [of "'' Intro ''"]
  have sp: "\<not> isspace (hd (strip '' Intro ''))" "\<not> isspace (last (strip '' Intro ''))"
    by blast+
  have st: "stem ''Intro.pdf'' = ''Intro''"
    by (simp add: stem_def path_name_def rfind_def)
  have path: "avoid_overwriting ?v (stem (ensure_pdf_suffix '' Intro ''))
      (ensure_pdf_suffix '' Intro '') 1 = Inr ''Intro_1.pdf''"
    unfolding n1 st
    by (simp add: avoid_overwriting.simps new_folder_def split_defs show_nat.simps)
  with C9_name_ends_with_extension [of "'' Intro ''" ?v "''Intro_1.pdf''"]
  have e: "endswith (lower ''Intro_1.pdf'') ''.pdf''"
    by blast
  from n1 n2 n3 trimmed(1) sp path e show ?thesis by (intro conjI)
qed

text \<open>
  Claim C10. When reading under the encodings before some encoding of the list ended in
  decoding failures, and under that encoding a row is malformed (fewer than three cells, a
  page field that is not an integer, or a blank filename), the error of that row is the
  result of \<^verbatim>\<open>read_ranges_csv\<close> and the encodings after it are not opened. In every run,
  each encoding opened before the last one ended in a decoding failure: nothing else makes
  the parser go on to the next encoding.
\<close>

theorem C10_row_error_propagates:
  assumes "encodings_to_try = before @ enc # after"
    and "\<forall>x \<in> set before. decode_failed (f x)"
    and "read_rows 1 (yielded (f enc)) [] = Inl e"
  shows "read_ranges_csv f = (before @ [enc], Inl e)
         \<and> malformed_row_error e
         \<and> (\<forall>x \<in> set (butlast (fst (read_ranges_csv f))). decode_failed (f x))"
proof -
  from assms(3) have r: "read_with (f enc) = Inl e" "\<not> decode_failed (f enc)"
    using read_with_row_error by blast+
  from assms(2) r(2) have "try_encodings f (before @ enc # after) None []
      = ([] @ before @ [enc], read_with (f enc))"
    by (rule try_encodings_skip)
  with r(1) have "read_ranges_csv f = (before @ [enc], Inl e)"
    by (simp add: read_ranges_csv_def assms(1))
  moreover from assms(3) have "malformed_row_error e" by (rule read_rows_error_kind)
  ultimately show ?thesis using opened_before_last_failed [of f] by blast
qed

text \<open>The row \<open>1,x,out\<close> under the first encoding; the other two are not opened.\<close>

theorem C10_witness:
  "encodings_to_try = [] @ Utf8Sig # [Utf8, Cp1252]
   \<and> read_ranges_csv (\<lambda>enc. \<lparr>yielded = [[''1'', ''x'', ''out'']], raised = None\<rparr>)
       = ([Utf8Sig], Inl (NotIntegers 1 ''1'' ''x''))"
proof -
  let ?f = "\<lambda>enc :: encoding. \<lparr>yielded = [[''1'', ''x'', ''out'']], raised = None\<rparr>"
  have h1: "encodings_to_try = [] @ Utf8Sig # [Utf8, Cp1252]"
    by (simp add: encodings_to_try_def)
  have h2: "\<forall>x \<in> set []. decode_failed (?f x)" by simp
  have h3: "read_rows 1 (yielded (?f Utf8Sig)) [] = Inl (NotIntegers 1 ''1'' ''x'')"
    by (simp add: read_rows.simps(2) blank_row_def header_like_def text_defs)
  from C10_row_error_propagates [OF h1 h2 h3] h1 show ?thesis by simp
qed

end
